theory Spec2Isabelle
  imports Complex_Main "HOL-Library.Word" "HOL-Library.Multiset"
begin

unbundle bit_operations_syntax

section \<open>Load balancer (core/balancer/LoadBalancer.cpp, TaskTypes.hpp)\<close>

text \<open>
  The C++ type \<open>double\<close> is modelled by \<open>real\<close>: scores are compared with margins far
  above rounding error in every concrete evaluation below. \<open>size_t\<close> counters are \<open>nat\<close>,
  \<open>std::vector<uint8_t>\<close> is a list of 8-bit words.
\<close>

type_synonym bytes = "8 word list"

datatype TaskType = CPU_INTENSIVE | IO_INTENSIVE | MEMORY_INTENSIVE | NETWORK_INTENSIVE | MIXED

record KernelMetrics =
  load :: real
  latency :: real
  cacheEfficiency :: real
  tunnelBandwidth :: real
  activeTasks :: int
  cpuUsage :: real
  memoryUsage :: real
  networkBandwidth :: real
  diskIO :: real
  energyConsumption :: real
  cpuTaskEfficiency :: real
  ioTaskEfficiency :: real
  memoryTaskEfficiency :: real
  networkTaskEfficiency :: real

text \<open>The member initialisers of \<open>struct KernelMetrics\<close>: every field is zero.\<close>

definition KernelMetrics_default :: KernelMetrics where
  "KernelMetrics_default =
     \<lparr>load = 0, latency = 0, cacheEfficiency = 0, tunnelBandwidth = 0, activeTasks = 0,
      cpuUsage = 0, memoryUsage = 0, networkBandwidth = 0, diskIO = 0, energyConsumption = 0,
      cpuTaskEfficiency = 0, ioTaskEfficiency = 0, memoryTaskEfficiency = 0,
      networkTaskEfficiency = 0\<rparr>"

record TaskDescriptor =
  task_data :: bytes
  priority :: int
  enqueueTime :: nat
  task_type :: TaskType
  estimatedMemoryUsage :: nat
  estimatedCpuTime :: nat

text \<open>\<open>TaskDescriptor() = default\<close>: priority 5, type MIXED, no estimates.\<close>

definition TaskDescriptor_default :: TaskDescriptor where
  "TaskDescriptor_default =
     \<lparr>task_data = [], priority = 5, enqueueTime = 0, task_type = MIXED,
      estimatedMemoryUsage = 0, estimatedCpuTime = 0\<rparr>"

datatype BalancingStrategy =
  ResourceAware | WorkloadSpecific | HybridAdaptive | PriorityAdaptive | LeastLoaded | RoundRobin

record LoadBalancer =
  strategy :: string
  strategyEnum :: BalancingStrategy
  rrIdx :: nat
  cpuWeight :: real
  memoryWeight :: real
  networkWeight :: real
  energyWeight :: real
  resourceThreshold :: real
  workloadThreshold :: real
  resourceAwareDecisions :: nat
  workloadSpecificDecisions :: nat
  totalDecisions :: nat

text \<open>
  The constructor \<open>LoadBalancer() : strategy("hybrid_adaptive")\<close> together with the in-class
  member initialisers of LoadBalancer.hpp.
\<close>

definition LoadBalancer_new :: LoadBalancer where
  "LoadBalancer_new =
     \<lparr>strategy = ''hybrid_adaptive'', strategyEnum = HybridAdaptive, rrIdx = 0,
      cpuWeight = 3 / 10, memoryWeight = 25 / 100, networkWeight = 25 / 100,
      energyWeight = 2 / 10, resourceThreshold = 8 / 10, workloadThreshold = 7 / 10,
      resourceAwareDecisions = 0, workloadSpecificDecisions = 0, totalDecisions = 0\<rparr>"

text \<open>\<open>std::numeric_limits<double>::max()\<close>, the largest finite binary64 value.\<close>

definition DBL_MAX :: real where
  "DBL_MAX = (2 - 1 / 2 ^ 52) * 2 ^ 1023"

definition calculateResourceScore :: "LoadBalancer \<Rightarrow> KernelMetrics \<Rightarrow> TaskDescriptor \<Rightarrow> real" where
  "calculateResourceScore lb m task =
     (let cpuScore = (1 - cpuUsage m) * cpuWeight lb;
          memoryScore0 = (1 - memoryUsage m) * memoryWeight lb;
          networkScore = (networkBandwidth m / 1000) * networkWeight lb;
          energyScore = (1 - energyConsumption m / 100) * energyWeight lb;
          memoryScore =
            (if estimatedMemoryUsage task > 0
             then memoryScore0 * (1 - real (estimatedMemoryUsage task) / (1024 * 1024 * 1024))
             else memoryScore0)
      in cpuScore + memoryScore + networkScore + energyScore)"

definition calculateWorkloadScore :: "KernelMetrics \<Rightarrow> TaskDescriptor \<Rightarrow> real" where
  "calculateWorkloadScore m task =
     (let efficiencyScore =
            (case task_type task of
               CPU_INTENSIVE \<Rightarrow> cpuTaskEfficiency m
             | IO_INTENSIVE \<Rightarrow> ioTaskEfficiency m
             | MEMORY_INTENSIVE \<Rightarrow> memoryTaskEfficiency m
             | NETWORK_INTENSIVE \<Rightarrow> networkTaskEfficiency m
             | MIXED \<Rightarrow> (cpuTaskEfficiency m + ioTaskEfficiency m +
                         memoryTaskEfficiency m + networkTaskEfficiency m) / 4)
      in 1 - efficiencyScore)"

text \<open>
  The selection loops all have the shape
  \<open>for (i = 0; i < metrics.size(); ++i) if (score < bestScore) { bestScore = score; bestKernel = i; }\<close>.
  \<open>select_min scores i (bestScore, bestKernel)\<close> runs it over the scores from index \<open>i\<close> on.
\<close>

fun select_min :: "real list \<Rightarrow> nat \<Rightarrow> real \<times> nat \<Rightarrow> real \<times> nat" where
  "select_min [] i best = best"
| "select_min (score # rest) i (bestScore, bestKernel) =
     select_min rest (Suc i)
       (if score < bestScore then (score, i) else (bestScore, bestKernel))"

definition selectByResourceAware :: "LoadBalancer \<Rightarrow> KernelMetrics list \<Rightarrow> TaskDescriptor \<Rightarrow> nat" where
  "selectByResourceAware lb metrics task =
     snd (select_min (map (\<lambda>m. calculateResourceScore lb m task) metrics) 0 (DBL_MAX, 0))"

definition selectByWorkloadSpecific :: "KernelMetrics list \<Rightarrow> TaskDescriptor \<Rightarrow> nat" where
  "selectByWorkloadSpecific metrics task =
     snd (select_min (map (\<lambda>m. calculateWorkloadScore m task) metrics) 0 (DBL_MAX, 0))"

text \<open>
  \<open>selectByHybridAdaptive\<close> reads \<open>metrics[0]\<close>; its only caller \<open>balance\<close> has already
  returned when the kernel list is empty or the sizes differ, so the list is never empty here.
\<close>

definition selectByHybridAdaptive :: "LoadBalancer \<Rightarrow> KernelMetrics list \<Rightarrow> TaskDescriptor \<Rightarrow> nat" where
  "selectByHybridAdaptive lb metrics task =
     (let resourceScore = calculateResourceScore lb (metrics ! 0) task;
          workloadScore = calculateWorkloadScore (metrics ! 0) task
      in if resourceScore > resourceThreshold lb then selectByResourceAware lb metrics task
         else if task_type task \<noteq> MIXED \<and> workloadScore > workloadThreshold lb
         then selectByWorkloadSpecific metrics task
         else snd (select_min
                (map (\<lambda>m. 6 / 10 * calculateResourceScore lb m task +
                           4 / 10 * calculateWorkloadScore m task) metrics)
                0 (DBL_MAX, 0)))"

definition shouldSwitchStrategy :: "KernelMetrics list \<Rightarrow> bool" where
  "shouldSwitchStrategy metrics =
     (let avgCpuUsage = sum_list (map cpuUsage metrics) / real (length metrics);
          avgMemoryUsage = sum_list (map memoryUsage metrics) / real (length metrics)
      in avgCpuUsage > 9 / 10 \<or> avgMemoryUsage > 9 / 10)"

text \<open>
  One iteration of either dispatch loop of \<open>balance\<close>: the \<open>switch\<close> on the strategy, the
  decision counters, and the index handed to \<open>kernels[selectedKernel]->scheduleTask\<close>.
\<close>

definition dispatch_one :: "LoadBalancer \<Rightarrow> KernelMetrics list \<Rightarrow> TaskDescriptor \<Rightarrow> LoadBalancer \<times> nat" where
  "dispatch_one lb metrics task =
     (let (lb1, selectedKernel) =
            (case strategyEnum lb of
               ResourceAware \<Rightarrow>
                 (lb\<lparr>resourceAwareDecisions := resourceAwareDecisions lb + 1\<rparr>,
                  selectByResourceAware lb metrics task)
             | WorkloadSpecific \<Rightarrow>
                 (lb\<lparr>workloadSpecificDecisions := workloadSpecificDecisions lb + 1\<rparr>,
                  selectByWorkloadSpecific metrics task)
             | HybridAdaptive \<Rightarrow> (lb, selectByHybridAdaptive lb metrics task)
             | _ \<Rightarrow> (lb, selectByResourceAware lb metrics task))
      in (lb1\<lparr>totalDecisions := totalDecisions lb1 + 1\<rparr>, selectedKernel))"

fun dispatch_all ::
  "LoadBalancer \<Rightarrow> KernelMetrics list \<Rightarrow> TaskDescriptor list \<Rightarrow> LoadBalancer \<times> (nat \<times> TaskDescriptor) list" where
  "dispatch_all lb metrics [] = (lb, [])"
| "dispatch_all lb metrics (task # rest) =
     (let (lb1, k) = dispatch_one lb metrics task;
          (lb2, out) = dispatch_all lb1 metrics rest
      in (lb2, (k, task) # out))"

text \<open>
  \<open>balance(kernels, tasks, metrics)\<close>. The kernels enter only through their number; the
  result lists, in call order, the kernel index and task of every \<open>scheduleTask\<close> call.
\<close>

definition balance ::
  "LoadBalancer \<Rightarrow> nat \<Rightarrow> TaskDescriptor list \<Rightarrow> KernelMetrics list \<Rightarrow> LoadBalancer \<times> (nat \<times> TaskDescriptor) list" where
  "balance lb kernels tasks metrics =
     (if kernels = 0 \<or> tasks = [] \<or> length metrics \<noteq> kernels then (lb, [])
      else
        let lb1 = (if shouldSwitchStrategy metrics
                   then (if strategyEnum lb = ResourceAware
                         then lb\<lparr>strategyEnum := WorkloadSpecific, strategy := ''workload_specific''\<rparr>
                         else lb\<lparr>strategyEnum := ResourceAware, strategy := ''resource_aware''\<rparr>)
                   else lb);
            highPriority = filter (\<lambda>t. priority t \<ge> 7) tasks;
            lowPriority = filter (\<lambda>t. \<not> priority t \<ge> 7) tasks;
            (lb2, out1) = dispatch_all lb1 metrics highPriority;
            (lb3, out2) = dispatch_all lb2 metrics lowPriority
        in (lb3, out1 @ out2))"

definition setResourceWeights :: "LoadBalancer \<Rightarrow> real \<Rightarrow> real \<Rightarrow> real \<Rightarrow> real \<Rightarrow> LoadBalancer" where
  "setResourceWeights lb cpuW memoryW networkW energyW =
     lb\<lparr>cpuWeight := cpuW, memoryWeight := memoryW, networkWeight := networkW,
        energyWeight := energyW\<rparr>"

definition setAdaptiveThresholds :: "LoadBalancer \<Rightarrow> real \<Rightarrow> real \<Rightarrow> LoadBalancer" where
  "setAdaptiveThresholds lb resourceT workloadT =
     lb\<lparr>resourceThreshold := resourceT, workloadThreshold := workloadT\<rparr>"

definition setStrategy :: "LoadBalancer \<Rightarrow> string \<Rightarrow> LoadBalancer" where
  "setStrategy lb s =
     lb\<lparr>strategy := s,
        strategyEnum :=
          (if s = ''resource_aware'' then ResourceAware
           else if s = ''workload_specific'' then WorkloadSpecific
           else if s = ''hybrid_adaptive'' then HybridAdaptive
           else if s = ''least_loaded'' then LeastLoaded
           else if s = ''round_robin'' then RoundRobin
           else PriorityAdaptive)\<rparr>"

definition getStrategy :: "LoadBalancer \<Rightarrow> string" where
  "getStrategy lb = strategy lb"

definition getStrategyEnum :: "LoadBalancer \<Rightarrow> BalancingStrategy" where
  "getStrategyEnum lb = strategyEnum lb"


section \<open>Extended kernel metrics (CoreKernel.cpp, MicroKernel.cpp)\<close>

datatype KernelType = PARENT | MICRO | SMART | COMPUTATIONAL | ARCHITECTURAL | ORCHESTRATION | CRYPTO

text \<open>
  The fields of \<open>PerformanceMetrics\<close> that \<open>updateExtendedMetricsFromPerformance\<close> reads.
  \<open>ExtendedKernelMetrics\<close> has the fields of \<open>KernelMetrics\<close> and shares its record.
\<close>

record PerformanceMetrics =
  cpu_usage :: real
  memory_usage :: real
  power_consumption :: real
  temperature :: real
  perf_latency :: real
  perf_cacheEfficiency :: real
  perf_tunnelBandwidth :: real
  efficiencyScore :: real

text \<open>
  \<open>CoreKernel::updateExtendedMetricsFromPerformance\<close>. \<open>kind\<close> is the result of the virtual
  \<open>getType()\<close>, \<open>queued\<close> is \<open>pImpl->taskQueue.size()\<close>, \<open>perf\<close> is \<open>getMetrics()\<close>.
\<close>

definition CoreKernel_updateExtendedMetricsFromPerformance ::
  "KernelType \<Rightarrow> nat \<Rightarrow> PerformanceMetrics \<Rightarrow> KernelMetrics" where
  "CoreKernel_updateExtendedMetricsFromPerformance kind queued perf =
     (let baseEfficiency = efficiencyScore perf
      in \<lparr>load = cpu_usage perf, latency = perf_latency perf,
          cacheEfficiency = perf_cacheEfficiency perf,
          tunnelBandwidth = perf_tunnelBandwidth perf,
          activeTasks = int queued,
          cpuUsage = cpu_usage perf, memoryUsage = memory_usage perf,
          networkBandwidth = 1000, diskIO = 1000,
          energyConsumption = power_consumption perf,
          cpuTaskEfficiency = baseEfficiency * (if kind = COMPUTATIONAL then 12 / 10 else 1),
          ioTaskEfficiency = baseEfficiency * (if kind = MICRO then 11 / 10 else 1),
          memoryTaskEfficiency = baseEfficiency * (if kind = ARCHITECTURAL then 115 / 100 else 1),
          networkTaskEfficiency = baseEfficiency * (if kind = ORCHESTRATION then 125 / 100 else 1)\<rparr>)"

text \<open>
  \<open>MicroKernel::updateExtendedMetricsFromPerformance\<close>; \<open>queued\<close> is
  \<open>threadPool ? threadPool->getQueueSize() : 0\<close>.
\<close>

definition MicroKernel_updateExtendedMetricsFromPerformance ::
  "nat \<Rightarrow> PerformanceMetrics \<Rightarrow> KernelMetrics" where
  "MicroKernel_updateExtendedMetricsFromPerformance queued perf =
     (let baseEfficiency = efficiencyScore perf
      in \<lparr>load = cpu_usage perf, latency = perf_latency perf,
          cacheEfficiency = perf_cacheEfficiency perf,
          tunnelBandwidth = perf_tunnelBandwidth perf,
          activeTasks = int queued,
          cpuUsage = cpu_usage perf, memoryUsage = memory_usage perf,
          networkBandwidth = 500, diskIO = 500,
          energyConsumption = power_consumption perf,
          cpuTaskEfficiency = baseEfficiency * (9 / 10),
          ioTaskEfficiency = baseEfficiency * (11 / 10),
          memoryTaskEfficiency = baseEfficiency * (95 / 100),
          networkTaskEfficiency = baseEfficiency * (105 / 100)\<rparr>)"

text \<open>
  The table of the kernel-kind multipliers as the specification words it: the multiplier of
  a task class on a kernel kind, 1 wherever the table names none.
\<close>

definition spec_weight :: "KernelType \<Rightarrow> TaskType \<Rightarrow> real" where
  "spec_weight kind cls =
     (if kind = COMPUTATIONAL \<and> cls = CPU_INTENSIVE then 12 / 10
      else if kind = MICRO \<and> cls = IO_INTENSIVE then 11 / 10
      else if kind = MICRO \<and> cls = CPU_INTENSIVE then 9 / 10
      else if kind = ARCHITECTURAL \<and> cls = MEMORY_INTENSIVE then 115 / 100
      else if kind = ORCHESTRATION \<and> cls = NETWORK_INTENSIVE then 125 / 100
      else 1)"

text \<open>The per-class efficiency stored in the extended metrics.\<close>

definition class_efficiency :: "KernelMetrics \<Rightarrow> TaskType \<Rightarrow> real" where
  "class_efficiency m cls =
     (case cls of
        CPU_INTENSIVE \<Rightarrow> cpuTaskEfficiency m
      | IO_INTENSIVE \<Rightarrow> ioTaskEfficiency m
      | MEMORY_INTENSIVE \<Rightarrow> memoryTaskEfficiency m
      | NETWORK_INTENSIVE \<Rightarrow> networkTaskEfficiency m
      | MIXED \<Rightarrow> (cpuTaskEfficiency m + ioTaskEfficiency m +
                  memoryTaskEfficiency m + networkTaskEfficiency m) / 4)"

section \<open>Kernel task queue (CoreKernel.cpp)\<close>

text \<open>
  \<open>pImpl->taskQueue\<close> is a \<open>std::priority_queue<std::pair<int, std::function<void()>>>\<close>
  with the default comparison, \<open>std::less\<close> of the pair. An element is a pair of priority
  and closure, and nothing in it records when it was enqueued. The comparison of two pairs
  is that of \<open>std::pair\<close>,
  \<open>x.first < y.first || (!(y.first < x.first) && x.second < y.second)\<close>:
  the priorities decide, and at equal priorities the closures are compared.
  \<open>std::function\<close> declares no \<open>operator<\<close>, and the sources supply none, so the comparison
  of two closures is a parameter, \<open>fn_less\<close>, of every function of this section; nothing is
  assumed about it, and every statement about the queue is made for every \<open>fn_less\<close>.
  The queue is the binary heap of the GNU C++ library, kept in a vector:
  \<open>push\<close> is \<open>push_back\<close> followed by \<open>std::push_heap\<close>, \<open>pop\<close> is \<open>std::pop_heap\<close>
  followed by \<open>pop_back\<close>, \<open>top\<close> is \<open>front\<close>.
\<close>

definition item_less :: "('a \<Rightarrow> 'a \<Rightarrow> bool) \<Rightarrow> int \<times> 'a \<Rightarrow> int \<times> 'a \<Rightarrow> bool" where
  "item_less fn_less a b =
     (fst a < fst b \<or> (\<not> fst b < fst a \<and> fn_less (snd a) (snd b)))"

text \<open>
  \<open>std::__push_heap(first, holeIndex, topIndex, value, comp)\<close>: the hole climbs while its
  parent is less than the value.
\<close>

function push_heap_impl ::
  "('a \<Rightarrow> 'a \<Rightarrow> bool) \<Rightarrow> (int \<times> 'a) list \<Rightarrow> nat \<Rightarrow> nat \<Rightarrow> int \<times> 'a \<Rightarrow> (int \<times> 'a) list" where
  "push_heap_impl fn_less xs holeIndex topIndex v =
     (if holeIndex > topIndex \<and> item_less fn_less (xs ! ((holeIndex - 1) div 2)) v
      then push_heap_impl fn_less (xs[holeIndex := xs ! ((holeIndex - 1) div 2)])
             ((holeIndex - 1) div 2) topIndex v
      else xs[holeIndex := v])"
  by pat_completeness auto
termination
  by (relation "measure (\<lambda>(fn_less, xs, holeIndex, topIndex, v). holeIndex)") auto

declare push_heap_impl.simps [simp del]

text \<open>
  The descent loop of \<open>std::__adjust_heap\<close>: \<open>holeIndex\<close> and \<open>secondChild\<close> are equal at
  every loop head, so one index stands for both. While the node has two children the hole
  moves to the left child when the right one is less than it, and to the right child
  otherwise.
\<close>

function adjust_heap_loop ::
  "('a \<Rightarrow> 'a \<Rightarrow> bool) \<Rightarrow> (int \<times> 'a) list \<Rightarrow> nat \<Rightarrow> nat \<Rightarrow> (int \<times> 'a) list \<times> nat" where
  "adjust_heap_loop fn_less xs holeIndex len =
     (if holeIndex < (len - 1) div 2
      then let secondChild0 = 2 * (holeIndex + 1);
               secondChild = (if item_less fn_less (xs ! secondChild0) (xs ! (secondChild0 - 1))
                              then secondChild0 - 1 else secondChild0)
           in adjust_heap_loop fn_less (xs[holeIndex := xs ! secondChild]) secondChild len
      else (xs, holeIndex))"
  by pat_completeness auto
termination
  by (relation "measure (\<lambda>(fn_less, xs, holeIndex, len). len - holeIndex)") (auto simp: Let_def)

declare adjust_heap_loop.simps [simp del]

text \<open>
  \<open>std::__adjust_heap(first, holeIndex, len, value, comp)\<close>: the descent, the node with a
  single left child when \<open>len\<close> is even, then \<open>__push_heap\<close> of the value from the hole.
  The lengths are signed in C++: \<open>(len - 2) / 2\<close> is negative for \<open>len = 0\<close>, where no
  hole index equals it.
\<close>

definition adjust_heap ::
  "('a \<Rightarrow> 'a \<Rightarrow> bool) \<Rightarrow> (int \<times> 'a) list \<Rightarrow> nat \<Rightarrow> nat \<Rightarrow> int \<times> 'a \<Rightarrow> (int \<times> 'a) list" where
  "adjust_heap fn_less xs holeIndex len v =
     (let (xs1, hole1) = adjust_heap_loop fn_less xs holeIndex len;
          (xs2, hole2) =
            (if even len \<and> 2 \<le> len \<and> hole1 = (len - 2) div 2
             then (xs1[hole1 := xs1 ! (2 * (hole1 + 1) - 1)], 2 * (hole1 + 1) - 1)
             else (xs1, hole1))
      in push_heap_impl fn_less xs2 hole2 holeIndex v)"

definition pq_push ::
  "('a \<Rightarrow> 'a \<Rightarrow> bool) \<Rightarrow> (int \<times> 'a) list \<Rightarrow> int \<times> 'a \<Rightarrow> (int \<times> 'a) list" where
  "pq_push fn_less q x = push_heap_impl fn_less (q @ [x]) (length q) 0 x"

text \<open>
  \<open>pop\<close>: \<open>std::pop_heap\<close> moves the first element to the back when there are at least two
  (\<open>value = *(last - 1); *(last - 1) = *first; __adjust_heap(first, 0, last - 1 - first, value)\<close>),
  then \<open>pop_back\<close> drops it. The worker calls \<open>top\<close> and \<open>pop\<close> only on a non-empty queue.
\<close>

definition pq_pop ::
  "('a \<Rightarrow> 'a \<Rightarrow> bool) \<Rightarrow> (int \<times> 'a) list \<Rightarrow> (int \<times> 'a) list" where
  "pq_pop fn_less q =
     (if length q > 1
      then butlast (adjust_heap fn_less (q[length q - 1 := q ! 0]) 0 (length q - 1) (last q))
      else butlast q)"

text \<open>
  The kernel, as far as task scheduling goes: the running flag, the queue, and the log of the
  tasks the workers have taken from the queue, in the order they took them, which is the
  order in which tasks start.
  \<open>scheduleTask\<close> pushes under a shared lock of \<open>kernelMutex\<close>, and the worker takes inside
  a block whose lock is built on \<open>taskCondition\<close>, not on \<open>kernelMutex\<close>; so the source does
  not keep a push and a take, or two pushes, from overlapping, and overlapping operations
  on the vector have no defined behaviour. A run
  of the model is a sequence of whole pushes and takes: the executions in which no two
  queue operations overlap, among them every execution with one thread that enqueues while
  the workers wait.
  The worker's cancellation test reads an identifier the loop never declares, and the set it
  reads is filled only by \<open>cancelTask\<close>; no task is cancelled here.
\<close>

record 'a CoreKernel =
  running :: bool
  taskQueue :: "(int \<times> 'a) list"
  started :: "(int \<times> 'a) list"

definition CoreKernel_running :: "'a CoreKernel" where
  "CoreKernel_running = \<lparr>running = True, taskQueue = [], started = []\<rparr>"

definition scheduleTask ::
  "('a \<Rightarrow> 'a \<Rightarrow> bool) \<Rightarrow> 'a CoreKernel \<Rightarrow> 'a \<Rightarrow> int \<Rightarrow> 'a CoreKernel" where
  "scheduleTask fn_less k task prio =
     (if \<not> running k then k
      else k\<lparr>taskQueue := pq_push fn_less (taskQueue k) (prio, task)\<rparr>)"

text \<open>
  One pass of a worker through its locked block: with an empty queue the worker waits
  (or leaves, when the kernel has stopped) and nothing changes; otherwise it moves the top
  of the queue out and runs it.
\<close>

definition worker_take ::
  "('a \<Rightarrow> 'a \<Rightarrow> bool) \<Rightarrow> 'a CoreKernel \<Rightarrow> 'a CoreKernel" where
  "worker_take fn_less k =
     (if taskQueue k = [] then k
      else k\<lparr>started := started k @ [taskQueue k ! 0], taskQueue := pq_pop fn_less (taskQueue k)\<rparr>)"

datatype 'a kernel_event = Schedule 'a int | WorkerTake

fun kernel_step ::
  "('a \<Rightarrow> 'a \<Rightarrow> bool) \<Rightarrow> 'a CoreKernel \<Rightarrow> 'a kernel_event \<Rightarrow> 'a CoreKernel" where
  "kernel_step fn_less k (Schedule task prio) = scheduleTask fn_less k task prio"
| "kernel_step fn_less k WorkerTake = worker_take fn_less k"

definition kernel_run ::
  "('a \<Rightarrow> 'a \<Rightarrow> bool) \<Rightarrow> 'a CoreKernel \<Rightarrow> 'a kernel_event list \<Rightarrow> 'a CoreKernel" where
  "kernel_run fn_less k evs = foldl (kernel_step fn_less) k evs"

text \<open>The tasks of an event list in the order they were enqueued.\<close>

fun enqueued :: "'a kernel_event list \<Rightarrow> (int \<times> 'a) list" where
  "enqueued [] = []"
| "enqueued (Schedule task prio # evs) = (prio, task) # enqueued evs"
| "enqueued (WorkerTake # evs) = enqueued evs"

text \<open>The heap order of the vector: no element is less than its children.\<close>

definition heap_upto :: "nat \<Rightarrow> (int \<times> 'a) list \<Rightarrow> bool" where
  "heap_upto n xs = (\<forall>i < n. 0 < i \<longrightarrow> fst (xs ! i) \<le> fst (xs ! ((i - 1) div 2)))"

definition is_heap :: "(int \<times> 'a) list \<Rightarrow> bool" where
  "is_heap xs = heap_upto (length xs) xs"

text \<open>
  The heap order of the first \<open>n\<close> elements around a hole at index \<open>h\<close>: every element but
  the hole's is in order with its parent, and the children of the hole are in order with
  the parent of the hole.
\<close>

definition hole_inv :: "nat \<Rightarrow> (int \<times> 'a) list \<Rightarrow> nat \<Rightarrow> bool" where
  "hole_inv n xs h =
     ((\<forall>i < n. 0 < i \<and> i \<noteq> h \<longrightarrow> fst (xs ! i) \<le> fst (xs ! ((i - 1) div 2))) \<and>
      (\<forall>c < n. 0 < c \<and> (c - 1) div 2 = h \<and> 0 < h \<longrightarrow>
         fst (xs ! c) \<le> fst (xs ! ((h - 1) div 2))))"

section \<open>Thread pool (core/thread/ThreadPool.cpp)\<close>

text \<open>
  A worker thread runs \<open>processTasks\<close>: it waits under the queue mutex until the pool is
  stopped or the queue is non-empty, leaves when the pool is stopped and the queue is
  empty, and otherwise takes the front closure and runs it outside the lock. The sections
  under the mutex are atomic, so the pool is a transition system whose steps are those
  sections, interleaved in any order.
\<close>

datatype 'a worker_state = Waiting | Busy 'a | Exited

record 'a ThreadPool =
  tasks :: "'a list"
  stop :: bool
  workers :: "'a worker_state list"
  activeThreads :: nat
  queueSize :: nat
  executed :: "'a list"

text \<open>
  \<open>enqueue\<close>: a full queue throws (the model returns \<open>None\<close>), otherwise the closure goes to
  the back. The closures of the model are the non-null ones; \<open>enqueue\<close> returns at once on
  a null one.
\<close>

definition enqueue :: "'a ThreadPool \<Rightarrow> 'a \<Rightarrow> 'a ThreadPool option" where
  "enqueue p task =
     (if length (tasks p) \<ge> queueSize p then None
      else Some (p\<lparr>tasks := tasks p @ [task]\<rparr>))"

text \<open>
  One step of worker \<open>i\<close>. Waiting: blocked on an empty queue of a running pool, gone on an
  empty queue of a stopped pool, otherwise it takes the front closure and starts it.
  Busy: the closure returns. \<open>executed\<close> logs the closures in the order they start.
\<close>

definition processTasks_step :: "'a ThreadPool \<Rightarrow> nat \<Rightarrow> 'a ThreadPool" where
  "processTasks_step p i =
     (if i \<ge> length (workers p) then p
      else case workers p ! i of
        Exited \<Rightarrow> p
      | Busy t \<Rightarrow> p\<lparr>workers := (workers p)[i := Waiting], activeThreads := activeThreads p - 1\<rparr>
      | Waiting \<Rightarrow>
          (case tasks p of
             [] \<Rightarrow> (if stop p then p\<lparr>workers := (workers p)[i := Exited]\<rparr> else p)
           | t # rest \<Rightarrow>
               p\<lparr>tasks := rest, workers := (workers p)[i := Busy t],
                 activeThreads := activeThreads p + 1, executed := executed p @ [t]\<rparr>))"

text \<open>
  \<open>stop()\<close> sets the flag under the mutex and wakes every worker; it then joins the
  workers, so it returns once every worker has left \<open>processTasks\<close>.
\<close>

definition stop_request :: "'a ThreadPool \<Rightarrow> 'a ThreadPool" where
  "stop_request p = p\<lparr>stop := True\<rparr>"

definition stop_returned :: "'a ThreadPool \<Rightarrow> bool" where
  "stop_returned p = (stop p \<and> list_all (\<lambda>w. w = Exited) (workers p))"

text \<open>A schedule of worker steps: which worker moves next.\<close>

definition pool_run :: "'a ThreadPool \<Rightarrow> nat list \<Rightarrow> 'a ThreadPool" where
  "pool_run p sched = foldl processTasks_step p sched"


section \<open>Recovery manager (core/recovery/RecoveryManager.cpp, RecoveryManager.hpp)\<close>

record RecoveryPointConfig =
  maxSize :: nat
  enableCompression :: bool
  storagePath :: string
  retentionPeriod :: nat

record RecoveryConfig =
  maxRecoveryPoints :: nat
  checkpointInterval :: int
  enableAutoRecovery :: bool
  enableStateValidation :: bool
  pointConfig :: RecoveryPointConfig
  logPath :: string
  maxLogSize :: nat
  maxLogFiles :: nat

text \<open>
  \<open>struct RecoveryPoint\<close>. A local \<open>RecoveryPoint point;\<close> is default-initialised: the id,
  the checksum, the state and the metadata are empty, while \<open>isConsistent\<close> holds no
  determinate value until it is assigned (\<open>None\<close>).
\<close>

record RecoveryPoint =
  point_id :: string
  timestamp :: nat
  state :: bytes
  isConsistent :: "bool option"
  checksum :: string
  point_size :: nat
  metadata :: "(string \<times> string) list"

definition RecoveryPoint_default :: RecoveryPoint where
  "RecoveryPoint_default =
     \<lparr>point_id = [], timestamp = 0, state = [], isConsistent = None, checksum = [],
      point_size = 0, metadata = []\<rparr>"

text \<open>
  The JSON object that \<open>toJson\<close> writes and \<open>fromJson\<close> reads: id, timestamp, size,
  isConsistent, checksum and metadata. The state bytes are not among its keys.
\<close>

record PointJson =
  json_id :: string
  json_timestamp :: nat
  json_size :: nat
  json_isConsistent :: "bool option"
  json_checksum :: string
  json_metadata :: "(string \<times> string) list"

definition toJson :: "RecoveryPoint \<Rightarrow> PointJson" where
  "toJson p =
     \<lparr>json_id = point_id p, json_timestamp = timestamp p, json_size = point_size p,
      json_isConsistent = isConsistent p, json_checksum = checksum p,
      json_metadata = metadata p\<rparr>"

definition fromJson :: "PointJson \<Rightarrow> RecoveryPoint" where
  "fromJson j =
     RecoveryPoint_default
       \<lparr>point_id := json_id j, timestamp := json_timestamp j, point_size := json_size j,
        isConsistent := json_isConsistent j, checksum := json_checksum j,
        metadata := json_metadata j\<rparr>"

text \<open>
  The storage directory: a file holds a recovery-point object or something that does not
  parse as one; \<open>writable\<close> tells whether a path can be opened for writing.
\<close>

datatype file_content = PointFile PointJson | Malformed

record Storage =
  files :: "string \<Rightarrow> file_content option"
  writable :: "string \<Rightarrow> bool"

text \<open>\<open>path /= name\<close> of \<open>std::filesystem::path\<close> on a POSIX system.\<close>

definition path_append :: "string \<Rightarrow> string \<Rightarrow> string" where
  "path_append dir name =
     (if name \<noteq> [] \<and> hd name = CHR ''/'' then name
      else if dir = [] \<or> last dir = CHR ''/'' then dir @ name
      else dir @ ''/'' @ name)"

definition saveCheckpoint :: "RecoveryPointConfig \<Rightarrow> Storage \<Rightarrow> RecoveryPoint \<Rightarrow> Storage option" where
  "saveCheckpoint cfg st point =
     (let path = path_append (storagePath cfg) (point_id point @ ''.json'')
      in if \<not> writable st path then None
         else Some (st\<lparr>files := (files st)(path := Some (PointFile (toJson point)))\<rparr>))"

definition loadCheckpoint :: "RecoveryPointConfig \<Rightarrow> Storage \<Rightarrow> string \<Rightarrow> RecoveryPoint option" where
  "loadCheckpoint cfg st pid =
     (let path = path_append (storagePath cfg) (pid @ ''.json'')
      in case files st path of
           None \<Rightarrow> None
         | Some Malformed \<Rightarrow> None
         | Some (PointFile j) \<Rightarrow> Some (fromJson j))"

text \<open>
  What the manager takes from outside the repository's sources: the SHA-256 digest of
  OpenSSL (byte \<open>i\<close> of the 32-byte digest of the data), and the two zlib helpers
  \<open>compressState\<close> and \<open>decompressState\<close>, declared in the header and defined nowhere
  in the sources. A helper either throws (\<open>Inl\<close>) or returns its flag and the rewritten
  buffer.
\<close>

record Codec =
  sha256 :: "bytes \<Rightarrow> nat \<Rightarrow> 8 word"
  compressState :: "bytes \<Rightarrow> string + bool \<times> bytes"
  decompressState :: "bytes \<Rightarrow> string + bool \<times> bytes"

definition hex_digit :: "nat \<Rightarrow> char" where
  "hex_digit n = ''0123456789abcdef'' ! (n mod 16)"

text \<open>\<open>std::hex << std::setw(2) << std::setfill('0')\<close> of a value below 256.\<close>

definition hex2 :: "nat \<Rightarrow> string" where
  "hex2 n = [hex_digit (n div 16), hex_digit n]"

text \<open>
  \<open>StateValidator::calculateChecksum\<close>: the 32 digest bytes in hexadecimal.
  \<open>RecoveryManager::calculateChecksum\<close> has no definition in the sources; the specification
  has it compute the SHA-256 of the bytes, which is this function.
\<close>

definition calculateChecksum :: "Codec \<Rightarrow> bytes \<Rightarrow> string" where
  "calculateChecksum cd bs = concat (map (\<lambda>i. hex2 (unat (sha256 cd bs i))) [0..<32])"

text \<open>\<open>StateValidator::validateState\<close>.\<close>

definition validateState :: "Codec \<Rightarrow> bytes \<Rightarrow> bool" where
  "validateState cd st =
     (if st = [] then False
      else let cs = calculateChecksum cd st in cs \<noteq> [])"

text \<open>
  The manager. A callback is absent (\<open>None\<close>, calling it throws \<open>std::bad_function_call\<close>)
  or installed; an installed callback throws (\<open>Inl\<close>) or returns. \<open>captureCalls\<close>,
  \<open>restoredStates\<close> and \<open>errorsReported\<close> record the calls made to the three callbacks.
  \<open>rngOutputs\<close> is the output stream of the \<open>std::mt19937\<close> member, \<open>rngPos\<close> the number
  of outputs drawn. The rotating log file and the wall-clock durations are left out.
\<close>

record RecoveryManager =
  config :: RecoveryConfig
  storage :: Storage
  rngOutputs :: "nat \<Rightarrow> 32 word"
  rngPos :: nat
  stateCaptureCallback :: "(string + bytes) option"
  stateRestoreCallback :: "(bytes \<Rightarrow> string + bool) option"
  errorCallback :: bool
  captureCalls :: nat
  restoredStates :: "bytes list"
  errorsReported :: "string list"
  successfulRecoveries :: nat
  recoveryInProgress :: bool

definition handleError :: "RecoveryManager \<Rightarrow> string \<Rightarrow> RecoveryManager" where
  "handleError m err =
     (if errorCallback m then m\<lparr>errorsReported := errorsReported m @ [err]\<rparr> else m)"

text \<open>\<open>generatePointId\<close>: eight times the low byte of the next generator output, in hex.\<close>

definition generatePointId :: "RecoveryManager \<Rightarrow> string \<times> RecoveryManager" where
  "generatePointId m =
     (concat (map (\<lambda>i. hex2 (unat (rngOutputs m (rngPos m + i) AND 0xFF))) [0..<8]),
      m\<lparr>rngPos := rngPos m + 8\<rparr>)"

text \<open>
  The first part of \<open>createRecoveryPoint\<close>, up to \<open>point.size = point.state.size()\<close>: the
  point that is handed to \<open>saveCheckpoint\<close>, or the message of the exception thrown on
  the way. The value returned by \<open>compressState\<close> is not looked at.
\<close>

definition assemble_point ::
  "Codec \<Rightarrow> RecoveryManager \<Rightarrow> nat \<Rightarrow> RecoveryManager \<times> (string + RecoveryPoint)" where
  "assemble_point cd m now =
     (let (pid, m1) = generatePointId m;
          point0 = RecoveryPoint_default\<lparr>point_id := pid, timestamp := now\<rparr>;
          (m2, r1) =
            (if enableStateValidation (config m1)
             then (case stateCaptureCallback m1 of
                     None \<Rightarrow> (m1, Inl ''bad_function_call'')
                   | Some (Inl e) \<Rightarrow> (m1\<lparr>captureCalls := captureCalls m1 + 1\<rparr>, Inl e)
                   | Some (Inr st) \<Rightarrow>
                       (m1\<lparr>captureCalls := captureCalls m1 + 1\<rparr>,
                        Inr (point0\<lparr>state := st, checksum := calculateChecksum cd st,
                                    isConsistent := Some (validateState cd st)\<rparr>)))
             else (m1, Inr point0))
      in case r1 of
           Inl e \<Rightarrow> (m2, Inl e)
         | Inr point1 \<Rightarrow>
             (if enableCompression (pointConfig (config m2))
              then (case compressState cd (state point1) of
                      Inl e \<Rightarrow> (m2, Inl e)
                    | Inr (ok, st') \<Rightarrow>
                        (m2, Inr (point1\<lparr>state := st', point_size := length st'\<rparr>)))
              else (m2, Inr (point1\<lparr>point_size := length (state point1)\<rparr>))))"

definition createRecoveryPoint ::
  "Codec \<Rightarrow> RecoveryManager \<Rightarrow> nat \<Rightarrow> string \<times> RecoveryManager" where
  "createRecoveryPoint cd m now =
     (case assemble_point cd m now of
        (m2, Inl e) \<Rightarrow> ([], handleError m2 (''Failed to create recovery point: '' @ e))
      | (m2, Inr point) \<Rightarrow>
          (case saveCheckpoint (pointConfig (config m2)) (storage m2) point of
             None \<Rightarrow>
               ([], handleError m2
                      (''Failed to create recovery point: '' @ ''Failed to save recovery point''))
           | Some st' \<Rightarrow> (point_id point, m2\<lparr>storage := st'\<rparr>)))"

text \<open>The \<open>catch\<close> block of \<open>restoreFromPoint\<close>.\<close>

definition restore_failed :: "RecoveryManager \<Rightarrow> string \<Rightarrow> bool \<times> RecoveryManager" where
  "restore_failed m e =
     (False, (handleError m (''Failed to restore from point: '' @ e))\<lparr>recoveryInProgress := False\<rparr>)"

text \<open>
  The state bytes after loading and, when compression is enabled, \<open>decompressState\<close>,
  whose returned flag is not looked at; \<open>Inl\<close> carries the message of an exception.
\<close>

definition loaded_state :: "Codec \<Rightarrow> RecoveryManager \<Rightarrow> string \<Rightarrow> string + bytes" where
  "loaded_state cd m pointId =
     (case loadCheckpoint (pointConfig (config m)) (storage m) pointId of
        None \<Rightarrow> Inl ''Failed to load recovery point''
      | Some point \<Rightarrow>
          (if enableCompression (pointConfig (config m))
           then (case decompressState cd (state point) of
                   Inl e \<Rightarrow> Inl e
                 | Inr (ok, st) \<Rightarrow> Inr st)
           else Inr (state point)))"

definition restoreFromPoint ::
  "Codec \<Rightarrow> RecoveryManager \<Rightarrow> string \<Rightarrow> bool \<times> RecoveryManager" where
  "restoreFromPoint cd m pointId =
     (let m0 = m\<lparr>recoveryInProgress := True\<rparr>
      in case loaded_state cd m0 pointId of
           Inl e \<Rightarrow> restore_failed m0 e
         | Inr st \<Rightarrow>
             (if enableStateValidation (config m0) \<and> \<not> validateState cd st
              then restore_failed m0 ''Invalid state data''
              else case stateRestoreCallback m0 of
                     None \<Rightarrow> restore_failed m0 ''bad_function_call''
                   | Some f \<Rightarrow>
                       (let m1 = m0\<lparr>restoredStates := restoredStates m0 @ [st]\<rparr>
                        in case f st of
                             Inl e \<Rightarrow> restore_failed m1 e
                           | Inr False \<Rightarrow> restore_failed m1 ''Failed to restore state''
                           | Inr True \<Rightarrow>
                               (True, m1\<lparr>successfulRecoveries := successfulRecoveries m1 + 1,
                                         recoveryInProgress := False\<rparr>))))"

text \<open>
  A sample configuration for concrete runs of the recovery manager: a digest that is zero
  everywhere, helpers that leave the buffer as it is, and a manager without compression
  whose storage holds one recovery point, \<open>p1\<close>, with the checksum \<open>00\<close>.
\<close>

definition sample_codec :: Codec where
  "sample_codec =
     \<lparr>sha256 = (\<lambda>bs i. 0),
      compressState = (\<lambda>bs. Inr (True, bs)),
      decompressState = (\<lambda>bs. Inr (True, bs))\<rparr>"

definition sample_manager :: "bool \<Rightarrow> RecoveryManager" where
  "sample_manager validation =
     \<lparr>config =
        \<lparr>maxRecoveryPoints = 10, checkpointInterval = 30, enableAutoRecovery = False,
         enableStateValidation = validation,
         pointConfig = \<lparr>maxSize = 1024, enableCompression = False,
                        storagePath = ''recovery'', retentionPeriod = 3600\<rparr>,
         logPath = ''logs/recovery.log'', maxLogSize = 1024, maxLogFiles = 2\<rparr>,
      storage =
        \<lparr>files = (\<lambda>path. if path = ''recovery/p1.json''
                   then Some (PointFile \<lparr>json_id = ''p1'', json_timestamp = 0, json_size = 0,
                                         json_isConsistent = None, json_checksum = ''00'',
                                         json_metadata = []\<rparr>)
                   else None),
         writable = (\<lambda>path. True)\<rparr>,
      rngOutputs = (\<lambda>i. 0x1234ABCD), rngPos = 0,
      stateCaptureCallback = Some (Inr [1, 2, 3]),
      stateRestoreCallback = Some (\<lambda>st. Inr True),
      errorCallback = True,
      captureCalls = 0, restoredStates = [], errorsReported = [],
      successfulRecoveries = 0, recoveryInProgress = False\<rparr>"

section \<open>Dynamic cache (core/cache/dynamic/DynamicCache.hpp)\<close>

text \<open>
  Modelled from the spec: the member functions of \<open>DynamicCache\<close> (\<open>get\<close>, \<open>put\<close>,
  \<open>evictIfNeeded\<close>, \<open>evictLRU\<close>) are declared in DynamicCache.hpp and defined nowhere in
  the sources. The model follows the header's data (\<open>Entry\<close> with \<open>data\<close>,
  \<open>lastAccess\<close>, \<open>ttlSeconds\<close>; \<open>allocatedSize_\<close>, \<open>defaultTTL_\<close>, the recency list, the
  eviction callback) and the specification's words: an entry is live iff
  \<open>now - lastAccess < ttl\<close> or \<open>ttl = 0\<close>; \<open>get\<close> on a live entry advances the recency and
  refreshes nothing about the TTL, \<open>get\<close> on an expired entry fails as if absent and removes
  it; \<open>put\<close> of an existing key overwrites and moves to the front, \<open>put\<close> of a new key
  inserts at the front and, while the size exceeds \<open>allocatedSize\<close>, evicts the tail of the
  recency list, calling the eviction callback for each victim.
  The specification's sentence on the cache entry also has \<open>lastAccess\<close> advance on \<open>get\<close>.
  With liveness counted from \<open>lastAccess\<close> that would renew the TTL at every hit, against
  the sentence on \<open>get\<close> (it refreshes nothing about the TTL) and against the testable
  property that counts the TTL from the time of the put. The model follows these two: the
  time stamp of an entry is set by \<open>put\<close> alone, and a hit moves the entry to the front of
  the recency list and leaves the time stamp as it is.
  The hash map and the recency list are one list of keys with their entries, most recently
  used first; \<open>evictions\<close> records the calls of the eviction callback. Times are ticks of
  the steady clock, in the unit of the TTL.
\<close>

record 'v Entry =
  entry_data :: 'v
  lastAccess :: nat
  ttlSeconds :: nat

record ('k, 'v) DynamicCache =
  allocatedSize :: nat
  defaultTTL :: nat
  lruList :: "('k \<times> 'v Entry) list"
  evictions :: "('k \<times> 'v) list"

definition DynamicCache_new :: "nat \<Rightarrow> nat \<Rightarrow> ('k, 'v) DynamicCache" where
  "DynamicCache_new initialSize dTTL =
     \<lparr>allocatedSize = initialSize, defaultTTL = dTTL, lruList = [], evictions = []\<rparr>"

definition cache_size :: "('k, 'v) DynamicCache \<Rightarrow> nat" where
  "cache_size c = length (lruList c)"

definition resident_keys :: "('k, 'v) DynamicCache \<Rightarrow> 'k list" where
  "resident_keys c = map fst (lruList c)"

text \<open>
  Modelled from the spec: an entry is live iff \<open>now - lastAccess < ttl\<close>, or \<open>ttl = 0\<close>.
\<close>

definition is_live :: "nat \<Rightarrow> 'v Entry \<Rightarrow> bool" where
  "is_live now e = (ttlSeconds e = 0 \<or> now - lastAccess e < ttlSeconds e)"

text \<open>
  Modelled from the spec: \<open>evictLRU\<close> (declared, not defined in the sources) removes the
  tail of the recency list and calls the eviction callback for it.
\<close>

definition evictLRU :: "('k, 'v) DynamicCache \<Rightarrow> ('k, 'v) DynamicCache" where
  "evictLRU c =
     (case rev (lruList c) of
        [] \<Rightarrow> c
      | (k, e) # _ \<Rightarrow>
          c\<lparr>lruList := butlast (lruList c), evictions := evictions c @ [(k, entry_data e)]\<rparr>)"

text \<open>
  Modelled from the spec: \<open>evictIfNeeded\<close> (declared, not defined in the sources) evicts the
  LRU tail until the size no longer exceeds \<open>allocatedSize\<close>.
\<close>

function evictIfNeeded :: "('k, 'v) DynamicCache \<Rightarrow> ('k, 'v) DynamicCache" where
  "evictIfNeeded c =
     (if length (lruList c) > allocatedSize c then evictIfNeeded (evictLRU c) else c)"
  by pat_completeness auto
termination
  by (relation "measure (\<lambda>c. length (lruList c))")
     (auto simp: evictLRU_def split: list.splits)

declare evictIfNeeded.simps [simp del]

text \<open>
  Modelled from the spec: \<open>put(key, value, ttlSeconds)\<close> (declared, not defined in the
  sources). An existing key is overwritten and moved to the front; a new key is inserted at
  the front and the tail is evicted while the size exceeds \<open>allocatedSize\<close>.
  \<open>put(key, value)\<close> is this with \<open>defaultTTL\<close>.
\<close>

definition cache_put ::
  "('k, 'v) DynamicCache \<Rightarrow> 'k \<Rightarrow> 'v \<Rightarrow> nat \<Rightarrow> nat \<Rightarrow> ('k, 'v) DynamicCache" where
  "cache_put c k v ttl now =
     (let e = \<lparr>entry_data = v, lastAccess = now, ttlSeconds = ttl\<rparr>
      in if k \<in> set (map fst (lruList c))
         then c\<lparr>lruList := (k, e) # filter (\<lambda>p. fst p \<noteq> k) (lruList c)\<rparr>
         else evictIfNeeded (c\<lparr>lruList := (k, e) # lruList c\<rparr>))"

text \<open>
  Modelled from the spec: \<open>get(key)\<close> (declared, not defined in the sources). A live entry is
  returned and moved to the front of the recency list, its time stamp and TTL untouched; an
  expired entry is removed and the call answers as for an absent key.
\<close>

definition cache_get ::
  "('k, 'v) DynamicCache \<Rightarrow> 'k \<Rightarrow> nat \<Rightarrow> 'v option \<times> ('k, 'v) DynamicCache" where
  "cache_get c k now =
     (case map_of (lruList c) k of
        None \<Rightarrow> (None, c)
      | Some e \<Rightarrow>
          (if is_live now e
           then (Some (entry_data e),
                 c\<lparr>lruList := (k, e) # filter (\<lambda>p. fst p \<noteq> k) (lruList c)\<rparr>)
           else (None, c\<lparr>lruList := filter (\<lambda>p. fst p \<noteq> k) (lruList c)\<rparr>)))"

text \<open>A put request: key, value, TTL and the time of the call.\<close>

type_synonym ('k, 'v) put_request = "'k \<times> 'v \<times> nat \<times> nat"

definition put_all ::
  "('k, 'v) DynamicCache \<Rightarrow> ('k, 'v) put_request list \<Rightarrow> ('k, 'v) DynamicCache" where
  "put_all c reqs = foldl (\<lambda>c (k, v, ttl, now). cache_put c k v ttl now) c reqs"



text \<open>
  Cache operations as data, for runs of mixed \<open>put\<close> and \<open>get\<close> calls: the key, and for a
  put the value, the TTL and the time of the call, for a get the time of the call.
\<close>

datatype ('k, 'v) cache_op = Put 'k 'v nat nat | Get 'k nat

fun cache_step :: "('k, 'v) DynamicCache \<Rightarrow> ('k, 'v) cache_op \<Rightarrow> ('k, 'v) DynamicCache" where
  "cache_step c (Put k v ttl now) = cache_put c k v ttl now"
| "cache_step c (Get k now) = snd (cache_get c k now)"

fun op_key :: "('k, 'v) cache_op \<Rightarrow> 'k" where
  "op_key (Put k v ttl now) = k"
| "op_key (Get k now) = k"

definition cache_run :: "('k, 'v) DynamicCache \<Rightarrow> ('k, 'v) cache_op list \<Rightarrow> ('k, 'v) DynamicCache" where
  "cache_run c ops = foldl cache_step c ops"

text \<open>
  The store time and the TTL of a key after a run of operations: those of the last put of
  the key in the run, if there is one.
\<close>

fun put_stamp :: "'k \<Rightarrow> (nat \<times> nat) option \<Rightarrow> ('k, 'v) cache_op \<Rightarrow> (nat \<times> nat) option" where
  "put_stamp k r (Put k' v ttl now) = (if k' = k then Some (now, ttl) else r)"
| "put_stamp k r (Get k' now) = r"

definition last_put :: "'k \<Rightarrow> ('k, 'v) cache_op list \<Rightarrow> (nat \<times> nat) option" where
  "last_put k ops = foldl (put_stamp k) None ops"

text \<open>Every entry of a key in the recency list carries a given time stamp and TTL.\<close>

definition stamped :: "'k \<Rightarrow> nat \<Rightarrow> nat \<Rightarrow> ('k, 'v) DynamicCache \<Rightarrow> bool" where
  "stamped k s ttl c =
     (\<forall>p \<in> set (lruList c). fst p = k \<longrightarrow> lastAccess (snd p) = s \<and> ttlSeconds (snd p) = ttl)"

text \<open>What the eviction callback is handed for an entry: its key and its value.\<close>

definition victim :: "'k \<times> 'v Entry \<Rightarrow> 'k \<times> 'v" where
  "victim p = (fst p, entry_data (snd p))"

text \<open>The list element that a put request inserts.\<close>

definition new_entry :: "('k, 'v) put_request \<Rightarrow> 'k \<times> 'v Entry" where
  "new_entry r = (case r of (k, v, ttl, now) \<Rightarrow>
     (k, \<lparr>entry_data = v, lastAccess = now, ttlSeconds = ttl\<rparr>))"

section \<open>Theorems: load balancer\<close>

text \<open>
  Claim C4. Two kernels with CPU and memory usage (0.95, 0.3) and (0.2, 0.4), every other
  metric equal, one MIXED task, the balancer as constructed (HybridAdaptive, weights
  0.3, 0.25, 0.25, 0.2, thresholds 0.8 and 0.7): the claim has \<open>balance\<close> dispatch the task
  to kernel 1. The code dispatches it to kernel 0. \<open>calculateResourceScore\<close> adds up the
  free shares of the resources, so the loaded kernel 0 scores 0.39 and the idle kernel 1
  scores 0.59, and the selection loops keep the smallest score.
\<close>

theorem balance_hybrid_scenario_selects_kernel_0:
  "snd (balance LoadBalancer_new 2 [TaskDescriptor_default]
          [KernelMetrics_default\<lparr>cpuUsage := 95 / 100, memoryUsage := 3 / 10\<rparr>,
           KernelMetrics_default\<lparr>cpuUsage := 2 / 10, memoryUsage := 4 / 10\<rparr>])
   = [(0, TaskDescriptor_default)]"
  by (simp add: balance_def shouldSwitchStrategy_def dispatch_one_def selectByHybridAdaptive_def
      calculateResourceScore_def calculateWorkloadScore_def LoadBalancer_new_def
      TaskDescriptor_default_def KernelMetrics_default_def DBL_MAX_def Let_def)

text \<open>
  Whatever the other metric fields are, the resource score of the first kernel of the
  scenario lies 0.2 below that of the second.
\<close>

lemma resource_score_gap:
  "calculateResourceScore LoadBalancer_new
     (m\<lparr>cpuUsage := 95 / 100, memoryUsage := 3 / 10\<rparr>) TaskDescriptor_default + 2 / 10 =
   calculateResourceScore LoadBalancer_new
     (m\<lparr>cpuUsage := 2 / 10, memoryUsage := 4 / 10\<rparr>) TaskDescriptor_default"
  by (simp add: calculateResourceScore_def LoadBalancer_new_def TaskDescriptor_default_def Let_def)

text \<open>
  Claim C5. The claim has the four stored weights sum to 1 after every
  \<open>setResourceWeights\<close> with positive arguments. The code stores the arguments as they
  are: after \<open>setResourceWeights(1, 1, 1, 1)\<close> the stored weights sum to 4.
\<close>

theorem setResourceWeights_stores_arguments:
  "(let lb = setResourceWeights LoadBalancer_new 1 1 1 1
    in cpuWeight lb + memoryWeight lb + networkWeight lb + energyWeight lb) = 4"
  by (simp add: setResourceWeights_def)

text \<open>
  Claim C9, as stated: an unrecognised strategy name leaves the balancer under
  HybridAdaptive, as the strategy getter shows. It fails for the name \<open>fastest\<close>: neither
  getter answers HybridAdaptive afterwards.
\<close>

theorem setStrategy_unknown_counterexample:
  "getStrategy (setStrategy LoadBalancer_new ''fastest'') \<noteq> ''hybrid_adaptive'' \<and>
   getStrategyEnum (setStrategy LoadBalancer_new ''fastest'') \<noteq> HybridAdaptive"
  by (simp add: setStrategy_def getStrategy_def getStrategyEnum_def)

text \<open>
  Claim C9, amended: after \<open>setStrategy\<close> with a name that is none of the five recognised
  ones, the strategy getter returns that name unchanged, the strategy enum is
  PriorityAdaptive, and \<open>balance\<close> selects the kernel of each task by the resource-aware
  selection (the default branch of its switch), counting the decision in the total only.
\<close>

theorem setStrategy_unknown_name:
  assumes "s \<notin> {''resource_aware'', ''workload_specific'', ''hybrid_adaptive'',
                 ''least_loaded'', ''round_robin''}"
  shows "getStrategy (setStrategy lb s) = s \<and>
         getStrategyEnum (setStrategy lb s) = PriorityAdaptive \<and>
         dispatch_one (setStrategy lb s) metrics task =
           ((setStrategy lb s)\<lparr>totalDecisions := totalDecisions lb + 1\<rparr>,
            selectByResourceAware (setStrategy lb s) metrics task)"
  using assms by (simp add: setStrategy_def getStrategy_def getStrategyEnum_def dispatch_one_def)

theorem setStrategy_unknown_name_witness:
  "''fastest'' \<notin> {''resource_aware'', ''workload_specific'', ''hybrid_adaptive'',
                 ''least_loaded'', ''round_robin''} \<and>
   getStrategy (setStrategy LoadBalancer_new ''fastest'') = ''fastest'' \<and>
   getStrategyEnum (setStrategy LoadBalancer_new ''fastest'') = PriorityAdaptive"
proof -
  have h: "''fastest'' \<notin> {''resource_aware'', ''workload_specific'', ''hybrid_adaptive'',
                 ''least_loaded'', ''round_robin''}" by simp
  show ?thesis using h setStrategy_unknown_name [OF h, of LoadBalancer_new] by simp
qed

section \<open>Theorems: extended kernel metrics\<close>

text \<open>
  Claim C8, as stated: every kernel derives its per-class efficiencies as the baseline times
  the table COMPUTATIONAL cpu 1.2, MICRO io 1.1 and cpu 0.9, ARCHITECTURAL memory 1.15,
  ORCHESTRATION network 1.25, and 1.0 everywhere else. It fails for the micro kernel and
  memory-bound tasks: with baseline 1 the stored efficiency is 0.95, where the table gives 1.
\<close>

theorem micro_kernel_weights_counterexample:
  "class_efficiency
     (MicroKernel_updateExtendedMetricsFromPerformance 0
        \<lparr>cpu_usage = 0, memory_usage = 0, power_consumption = 0, temperature = 0,
         perf_latency = 0, perf_cacheEfficiency = 0, perf_tunnelBandwidth = 0,
         efficiencyScore = 1\<rparr>) MEMORY_INTENSIVE
   \<noteq> 1 * spec_weight MICRO MEMORY_INTENSIVE"
  by (simp add: class_efficiency_def MicroKernel_updateExtendedMetricsFromPerformance_def
      spec_weight_def Let_def)

text \<open>
  Claim C8, amended: the core kernel's update multiplies the baseline efficiency by the
  table of the claim for every kernel kind and task class except MICRO with cpu, where it
  multiplies by 1.0; the micro kernel's own update multiplies the baseline by 0.9 for cpu,
  1.1 for io, 0.95 for memory and 1.05 for network.
\<close>

theorem extended_metrics_weights:
  "(cls \<noteq> MIXED \<and> \<not> (kind = MICRO \<and> cls = CPU_INTENSIVE) \<longrightarrow>
      class_efficiency (CoreKernel_updateExtendedMetricsFromPerformance kind queued perf) cls
        = efficiencyScore perf * spec_weight kind cls) \<and>
   class_efficiency (CoreKernel_updateExtendedMetricsFromPerformance MICRO queued perf) CPU_INTENSIVE
     = efficiencyScore perf * 1 \<and>
   class_efficiency (MicroKernel_updateExtendedMetricsFromPerformance queued perf) CPU_INTENSIVE
     = efficiencyScore perf * (9 / 10) \<and>
   class_efficiency (MicroKernel_updateExtendedMetricsFromPerformance queued perf) IO_INTENSIVE
     = efficiencyScore perf * (11 / 10) \<and>
   class_efficiency (MicroKernel_updateExtendedMetricsFromPerformance queued perf) MEMORY_INTENSIVE
     = efficiencyScore perf * (95 / 100) \<and>
   class_efficiency (MicroKernel_updateExtendedMetricsFromPerformance queued perf) NETWORK_INTENSIVE
     = efficiencyScore perf * (105 / 100)"
  by (cases cls; cases kind)
     (simp_all add: class_efficiency_def CoreKernel_updateExtendedMetricsFromPerformance_def
        MicroKernel_updateExtendedMetricsFromPerformance_def spec_weight_def Let_def)

theorem extended_metrics_weights_witness:
  "(CPU_INTENSIVE \<noteq> MIXED \<and> \<not> (COMPUTATIONAL = MICRO \<and> CPU_INTENSIVE = CPU_INTENSIVE)) \<and>
   class_efficiency (CoreKernel_updateExtendedMetricsFromPerformance COMPUTATIONAL 3
        \<lparr>cpu_usage = 0, memory_usage = 0, power_consumption = 0, temperature = 0,
         perf_latency = 0, perf_cacheEfficiency = 0, perf_tunnelBandwidth = 0,
         efficiencyScore = 1 / 2\<rparr>) CPU_INTENSIVE = 6 / 10"
  using extended_metrics_weights [of CPU_INTENSIVE COMPUTATIONAL 3
        "\<lparr>cpu_usage = 0, memory_usage = 0, power_consumption = 0, temperature = 0,
         perf_latency = 0, perf_cacheEfficiency = 0, perf_tunnelBandwidth = 0,
         efficiencyScore = 1 / 2\<rparr>"]
  by (simp add: spec_weight_def class_efficiency_def)

section \<open>Theorems: dynamic cache\<close>

lemma evictLRU_fields:
  "allocatedSize (evictLRU c) = allocatedSize c" "defaultTTL (evictLRU c) = defaultTTL c"
  by (auto simp: evictLRU_def split: list.splits)

lemma evictLRU_snoc:
  assumes "lruList c = ys @ [y]"
  shows "lruList (evictLRU c) = ys"
    and "evictions (evictLRU c) = evictions c @ [(fst y, entry_data (snd y))]"
  using assms by (cases y; simp add: evictLRU_def)+

lemma evictLRU_nonempty:
  assumes "lruList c \<noteq> []"
  shows "lruList (evictLRU c) = butlast (lruList c)"
    and "evictions (evictLRU c) = evictions c @ [(fst (last (lruList c)), entry_data (snd (last (lruList c))))]"
proof -
  from assms obtain ys y where l: "lruList c = ys @ [y]"
    by (cases "lruList c" rule: rev_cases) auto
  show "lruList (evictLRU c) = butlast (lruList c)"
    using evictLRU_snoc(1) [OF l] l by simp
  show "evictions (evictLRU c) = evictions c @ [(fst (last (lruList c)), entry_data (snd (last (lruList c))))]"
    using evictLRU_snoc(2) [OF l] l by simp
qed

lemma evictIfNeeded_fields:
  "allocatedSize (evictIfNeeded c) = allocatedSize c \<and> defaultTTL (evictIfNeeded c) = defaultTTL c"
proof (induction c rule: evictIfNeeded.induct)
  case (1 c)
  show ?case
  proof (cases "length (lruList c) > allocatedSize c")
    case True
    with 1 show ?thesis by (simp add: evictLRU_fields evictIfNeeded.simps [of c])
  next
    case False
    then show ?thesis by (simp add: evictIfNeeded.simps [of c])
  qed
qed

lemma evictIfNeeded_lruList:
  "lruList (evictIfNeeded c) = take (allocatedSize c) (lruList c)"
proof (induction c rule: evictIfNeeded.induct)
  case (1 c)
  show ?case
  proof (cases "length (lruList c) > allocatedSize c")
    case True
    then have ne: "lruList c \<noteq> []" by auto
    have "lruList (evictIfNeeded c) = lruList (evictIfNeeded (evictLRU c))"
      using True by (simp add: evictIfNeeded.simps [of c])
    also have "\<dots> = take (allocatedSize c) (butlast (lruList c))"
      using 1 True ne by (simp add: evictLRU_fields evictLRU_nonempty)
    also have "\<dots> = take (allocatedSize c) (lruList c)"
      using True by (simp add: take_butlast)
    finally show ?thesis .
  next
    case False
    then show ?thesis by (simp add: evictIfNeeded.simps [of c])
  qed
qed

lemma evictIfNeeded_evictions:
  "evictions (evictIfNeeded c) =
     evictions c @ map victim (rev (drop (allocatedSize c) (lruList c)))"
proof (induction c rule: evictIfNeeded.induct)
  case (1 c)
  show ?case
  proof (cases "length (lruList c) > allocatedSize c")
    case True
    then have ne: "lruList c \<noteq> []" by auto
    from ne obtain ys y where l: "lruList c = ys @ [y]"
      by (cases "lruList c" rule: rev_cases) auto
    have d: "drop (allocatedSize c) (lruList c) =
             drop (allocatedSize c) (butlast (lruList c)) @ [last (lruList c)]"
      using True l by simp
    have "evictions (evictIfNeeded c) = evictions (evictIfNeeded (evictLRU c))"
      using True by (simp add: evictIfNeeded.simps [of c])
    also have "\<dots> = evictions (evictLRU c) @
        map victim (rev (drop (allocatedSize c) (butlast (lruList c))))"
      using 1 True ne by (simp add: evictLRU_fields evictLRU_nonempty)
    also have "\<dots> = evictions c @ map victim (rev (drop (allocatedSize c) (lruList c)))"
      using ne by (simp add: evictLRU_nonempty d victim_def)
    finally show ?thesis .
  next
    case False
    then show ?thesis by (simp add: evictIfNeeded.simps [of c])
  qed
qed


lemma cache_put_fresh:
  assumes "k \<notin> fst ` set (lruList c)"
  shows "lruList (cache_put c k v ttl now) =
           take (allocatedSize c) (new_entry (k, v, ttl, now) # lruList c)"
    and "evictions (cache_put c k v ttl now) =
           evictions c @ map victim (rev (drop (allocatedSize c) (new_entry (k, v, ttl, now) # lruList c)))"
    and "allocatedSize (cache_put c k v ttl now) = allocatedSize c"
  using assms
  by (simp_all add: cache_put_def Let_def evictIfNeeded_lruList evictIfNeeded_evictions
      evictIfNeeded_fields new_entry_def)

lemma take_append_take: "take a (xs @ take a ys) = take a (xs @ ys)"
  by (simp add: min_def)

lemma drop_take_drop:
  assumes "b \<le> a"
  shows "drop b (take a L) @ drop a L = drop b L"
proof -
  have "drop b L = drop b (take a L @ drop a L)" by simp
  also have "\<dots> = drop b (take a L) @ drop (b - length (take a L)) (drop a L)"
    by (rule drop_append)
  also have "drop (b - length (take a L)) (drop a L) = drop a L"
  proof (cases "b \<le> length L")
    case True
    with assms show ?thesis by (simp add: min_def)
  next
    case False
    with assms show ?thesis by simp
  qed
  finally show ?thesis by simp
qed

lemma drop_append_take:
  "drop a (xs @ L) = drop a (xs @ take a L) @ drop a L"
proof (cases "a \<le> length xs")
  case True
  then show ?thesis by simp
next
  case False
  then show ?thesis using drop_take_drop [of "a - length xs" a L] by simp
qed

lemma put_all_fresh:
  assumes "distinct (map fst reqs)"
    and "fst ` set reqs \<inter> fst ` set (lruList c) = {}"
    and "length (lruList c) \<le> allocatedSize c"
  shows "lruList (put_all c reqs) =
           take (allocatedSize c) (rev (map new_entry reqs) @ lruList c) \<and>
         evictions (put_all c reqs) =
           evictions c @ map victim (rev (drop (allocatedSize c) (rev (map new_entry reqs) @ lruList c))) \<and>
         allocatedSize (put_all c reqs) = allocatedSize c"
  using assms
proof (induction reqs arbitrary: c)
  case Nil
  then show ?case by (simp add: put_all_def)
next
  case (Cons r reqs)
  obtain k v ttl now where r: "r = (k, v, ttl, now)" by (cases r) auto
  define c1 where "c1 = cache_put c k v ttl now"
  define a where "a = allocatedSize c"
  define R where "R = rev (map new_entry reqs)"
  define L where "L = new_entry r # lruList c"
  have fresh: "k \<notin> fst ` set (lruList c)" using Cons.prems(2) r by auto
  have p1: "lruList c1 = take a L"
    and p2: "evictions c1 = evictions c @ map victim (rev (drop a L))"
    and p3: "allocatedSize c1 = a"
    using cache_put_fresh [OF fresh, of v ttl now] by (simp_all add: c1_def a_def L_def r)
  have step: "put_all c (r # reqs) = put_all c1 reqs" by (simp add: put_all_def r c1_def)
  have d: "distinct (map fst reqs)" using Cons.prems(1) by simp
  have knot: "k \<notin> fst ` set reqs" using Cons.prems(1) r by (auto simp: image_iff)
  have sub: "set (lruList c1) \<subseteq> set L" unfolding p1 by (rule set_take_subset)
  have fstL: "fst ` set L = insert k (fst ` set (lruList c))"
    by (simp add: L_def r new_entry_def)
  have "fst ` set reqs \<inter> fst ` set L = {}"
    unfolding fstL using Cons.prems(2) knot by auto
  with sub have disj: "fst ` set reqs \<inter> fst ` set (lruList c1) = {}" by blast
  have len: "length (lruList c1) \<le> allocatedSize c1" by (simp add: p1 p3)
  from Cons.IH [OF d disj len]
  have ih1: "lruList (put_all c1 reqs) = take a (R @ take a L)"
    and ih2: "evictions (put_all c1 reqs) =
        evictions c1 @ map victim (rev (drop a (R @ take a L)))"
    and ih3: "allocatedSize (put_all c1 reqs) = a"
    by (simp_all add: p1 p3 R_def)
  have RL: "rev (map new_entry (r # reqs)) @ lruList c = R @ L"
    by (simp add: R_def L_def)
  have g1: "lruList (put_all c (r # reqs)) = take a (R @ L)"
    unfolding step ih1 by (rule take_append_take)
  have "evictions (put_all c (r # reqs)) =
      evictions c @ map victim (rev (drop a L)) @ map victim (rev (drop a (R @ take a L)))"
    unfolding step ih2 p2 by simp
  also have "\<dots> = evictions c @ map victim (rev (drop a (R @ take a L) @ drop a L))"
    by simp
  also have "drop a (R @ take a L) @ drop a L = drop a (R @ L)"
    by (rule drop_append_take [symmetric])
  finally have g2: "evictions (put_all c (r # reqs)) = evictions c @ map victim (rev (drop a (R @ L)))" .
  have g3: "allocatedSize (put_all c (r # reqs)) = a" unfolding step by (rule ih3)
  show ?case unfolding RL using g1 g2 g3 by (simp add: a_def)
qed

lemma cache_put_allocatedSize:
  "allocatedSize (cache_put c k v ttl now) = allocatedSize c"
  by (simp add: cache_put_def Let_def evictIfNeeded_fields)

lemma put_all_snoc:
  "put_all c (reqs @ [(k, v, ttl, now)]) = cache_put (put_all c reqs) k v ttl now"
  by (simp add: put_all_def)

lemma put_all_allocatedSize:
  "allocatedSize (put_all c reqs) = allocatedSize c"
proof (induction reqs rule: rev_induct)
  case Nil
  then show ?case by (simp add: put_all_def)
next
  case (snoc r reqs)
  obtain k v ttl now where r: "r = (k, v, ttl, now)" by (cases r) auto
  show ?case unfolding r put_all_snoc using snoc by (simp add: cache_put_allocatedSize)
qed

lemma filter_key_shorter:
  assumes "k \<in> fst ` set T"
  shows "length (filter (\<lambda>p. fst p \<noteq> k) T) < length T"
proof -
  from assms obtain x where "x \<in> set T" "\<not> fst x \<noteq> k" by auto
  then show ?thesis by (rule length_filter_less)
qed

lemma filter_key_absent:
  assumes "k \<notin> fst ` set R"
  shows "filter (\<lambda>p. fst p \<noteq> k) R = R"
  using assms by (induction R) auto

lemma put_all_prefix:
  assumes "distinct (map fst reqs)" and "length (lruList c) \<le> allocatedSize c"
  shows "\<exists>S. lruList (put_all c reqs) = take (allocatedSize c) (rev (map new_entry reqs) @ S)"
  using assms(1)
proof (induction reqs rule: rev_induct)
  case Nil
  have "lruList c = take (allocatedSize c) (lruList c)" using assms(2) by simp
  then have "\<exists>S. lruList c = take (allocatedSize c) S" by (rule exI)
  then show ?case by (simp add: put_all_def)
next
  case (snoc r reqs)
  obtain k v ttl now where r: "r = (k, v, ttl, now)" by (cases r) auto
  define a where "a = allocatedSize c"
  define R where "R = rev (map new_entry reqs)"
  define e where "e = new_entry r"
  define c1 where "c1 = put_all c reqs"
  from snoc.prems have d: "distinct (map fst reqs)" and kn: "k \<notin> fst ` set reqs"
    by (auto simp: r)
  have fR: "fst ` set R = fst ` set reqs"
  proof -
    have "map fst (map new_entry reqs) = map fst reqs"
      by (induction reqs) (auto simp: new_entry_def)
    then have "set (map fst (map new_entry reqs)) = set (map fst reqs)" by simp
    then show ?thesis by (simp add: R_def image_image)
  qed
  have kR: "k \<notin> fst ` set R" using kn fR by simp
  from snoc.IH [OF d] obtain S where S: "lruList c1 = take a (R @ S)"
    unfolding c1_def a_def R_def by blast
  have a1: "allocatedSize c1 = a" by (simp add: c1_def a_def put_all_allocatedSize)
  have fe: "e = (k, \<lparr>entry_data = v, lastAccess = now, ttlSeconds = ttl\<rparr>)"
    by (simp add: e_def r new_entry_def)
  have RR: "rev (map new_entry (reqs @ [r])) = e # R" by (simp add: R_def e_def)
  have "\<exists>S'. lruList (cache_put c1 k v ttl now) = take a (e # R @ S')"
  proof (cases "k \<in> fst ` set (lruList c1)")
    case True
    define T where "T = take (a - length R) S"
    have sp: "take a (R @ S) = take a R @ T" by (simp add: T_def)
    have "k \<in> fst ` set (take a R) \<union> fst ` set T"
      using True unfolding S sp by auto
    moreover have "k \<notin> fst ` set (take a R)"
      using kR set_take_subset [of a R] by auto
    ultimately have kT: "k \<in> fst ` set T" by simp
    then have "T \<noteq> []" by auto
    then have la: "length R < a" unfolding T_def by (cases "length R < a") auto
    then have tR: "take a R = R" by simp
    have lT: "length T \<le> a - length R" unfolding T_def by simp
    have L: "lruList c1 = R @ T" unfolding S sp tR ..
    have "lruList (cache_put c1 k v ttl now) = e # filter (\<lambda>p. fst p \<noteq> k) (lruList c1)"
      using True by (simp add: cache_put_def Let_def fe)
    then have "lruList (cache_put c1 k v ttl now) = e # filter (\<lambda>p. fst p \<noteq> k) (R @ T)"
      by (simp only: L)
    also have "\<dots> = e # R @ filter (\<lambda>p. fst p \<noteq> k) T"
      by (simp add: filter_key_absent [OF kR])
    also have "\<dots> = take a (e # R @ filter (\<lambda>p. fst p \<noteq> k) T)"
      using filter_key_shorter [OF kT] lT la by simp
    finally show ?thesis by blast
  next
    case False
    then have "lruList (cache_put c1 k v ttl now) = take a (e # take a (R @ S))"
      using cache_put_fresh(1) [OF False, of v ttl now] by (simp add: a1 S fe new_entry_def)
    also have "\<dots> = take a ([e] @ take a (R @ S))" by simp
    also have "\<dots> = take a ([e] @ (R @ S))" by (rule take_append_take)
    finally show ?thesis by auto
  qed
  then have "\<exists>S'. lruList (put_all c (reqs @ [r])) = take a (rev (map new_entry (reqs @ [r])) @ S')"
    unfolding RR unfolding r put_all_snoc c1_def by simp
  then show ?case unfolding a_def .
qed

text \<open>
  Claim C1. A cache of capacity \<open>C\<close> that holds at most \<open>C\<close> entries receives more than
  \<open>C\<close> puts with pairwise distinct keys. Afterwards the size is \<open>C\<close> and the resident keys
  are the \<open>C\<close> most recently put keys (listed most recent first). From an empty cache the
  eviction callback has been called exactly for the earlier puts, once each and oldest
  first: each victim was the tail of the recency list when it was evicted.
\<close>

theorem lru_capacity_after_distinct_puts:
  assumes "distinct (map fst reqs)" and "length reqs > allocatedSize c"
    and "length (lruList c) \<le> allocatedSize c"
  shows "cache_size (put_all c reqs) = allocatedSize c \<and>
         resident_keys (put_all c reqs) = take (allocatedSize c) (rev (map fst reqs)) \<and>
         (lruList c = [] \<longrightarrow>
            evictions (put_all c reqs) =
              evictions c @
              map (\<lambda>(k, v, ttl, now). (k, v)) (take (length reqs - allocatedSize c) reqs))"
proof -
  define a where "a = allocatedSize c"
  from put_all_prefix [OF assms(1,3)] obtain S
    where "lruList (put_all c reqs) = take a (rev (map new_entry reqs) @ S)"
    unfolding a_def by blast
  then have l: "lruList (put_all c reqs) = take a (rev (map new_entry reqs))"
    using assms(2) by (simp add: a_def)
  have fn: "map fst (map new_entry reqs) = map fst reqs"
    by (induction reqs) (auto simp: new_entry_def)
  have vn: "map victim (map new_entry reqs) = map (\<lambda>(k, v, ttl, now). (k, v)) reqs"
    by (induction reqs) (auto simp: new_entry_def victim_def)
  have s: "cache_size (put_all c reqs) = a"
    using assms(2) by (simp add: cache_size_def l a_def)
  have k: "resident_keys (put_all c reqs) = take a (rev (map fst reqs))"
  proof -
    have "map fst (take a (rev (map new_entry reqs))) = take a (rev (map fst (map new_entry reqs)))"
      by (simp only: take_map rev_map)
    then show ?thesis by (simp only: resident_keys_def l fn)
  qed
  have ev: "evictions (put_all c reqs) =
      evictions c @ map (\<lambda>(k, v, ttl, now). (k, v)) (take (length reqs - a) reqs)"
    if em: "lruList c = []"
  proof -
    have "fst ` set reqs \<inter> fst ` set (lruList c) = {}" by (simp add: em)
    from put_all_fresh [OF assms(1) this assms(3)]
    have "evictions (put_all c reqs) =
        evictions c @ map victim (rev (drop a (rev (map new_entry reqs))))"
      by (simp add: em a_def)
    moreover have "rev (drop a (rev (map new_entry reqs))) = take (length reqs - a) (map new_entry reqs)"
      by (simp add: drop_rev)
    ultimately have "evictions (put_all c reqs) =
        evictions c @ take (length reqs - a) (map victim (map new_entry reqs))"
      by (simp only: take_map)
    then show ?thesis by (simp only: vn take_map)
  qed
  from s k ev show ?thesis unfolding a_def by blast
qed

lemma stamped_after_put: "stamped k s ttl (cache_put c k v ttl s)"
proof (cases "k \<in> set (map fst (lruList c))")
  case True
  then show ?thesis by (auto simp: stamped_def cache_put_def Let_def)
next
  case False
  then have l: "lruList (cache_put c k v ttl s) =
      take (allocatedSize c) ((k, \<lparr>entry_data = v, lastAccess = s, ttlSeconds = ttl\<rparr>) # lruList c)"
    by (simp add: cache_put_def Let_def evictIfNeeded_lruList)
  show ?thesis unfolding stamped_def l
  proof (intro ballI impI)
    fix p
    assume pt: "p \<in> set (take (allocatedSize c)
        ((k, \<lparr>entry_data = v, lastAccess = s, ttlSeconds = ttl\<rparr>) # lruList c))"
      and pk: "fst p = k"
    from pt have "p \<in> set ((k, \<lparr>entry_data = v, lastAccess = s, ttlSeconds = ttl\<rparr>) # lruList c)"
      by (rule in_set_takeD)
    with False pk have "p = (k, \<lparr>entry_data = v, lastAccess = s, ttlSeconds = ttl\<rparr>)"
      by force
    then show "lastAccess (snd p) = s \<and> ttlSeconds (snd p) = ttl" by simp
  qed
qed

lemma stamped_put_other:
  assumes "stamped k s ttl c" and "k' \<noteq> k"
  shows "stamped k s ttl (cache_put c k' v ttl' now)"
proof (cases "k' \<in> set (map fst (lruList c))")
  case True
  with assms show ?thesis by (auto simp: stamped_def cache_put_def Let_def)
next
  case False
  then have l: "lruList (cache_put c k' v ttl' now) =
      take (allocatedSize c)
        ((k', \<lparr>entry_data = v, lastAccess = now, ttlSeconds = ttl'\<rparr>) # lruList c)"
    by (simp add: cache_put_def Let_def evictIfNeeded_lruList)
  show ?thesis unfolding stamped_def l
  proof (intro ballI impI)
    fix p
    assume pt: "p \<in> set (take (allocatedSize c)
        ((k', \<lparr>entry_data = v, lastAccess = now, ttlSeconds = ttl'\<rparr>) # lruList c))"
      and pk: "fst p = k"
    from pt have "p \<in> set ((k', \<lparr>entry_data = v, lastAccess = now, ttlSeconds = ttl'\<rparr>) # lruList c)"
      by (rule in_set_takeD)
    with assms(2) pk have "p \<in> set (lruList c)" by auto
    with assms(1) pk show "lastAccess (snd p) = s \<and> ttlSeconds (snd p) = ttl"
      unfolding stamped_def by blast
  qed
qed

lemma stamped_get:
  assumes "stamped k s ttl c"
  shows "stamped k s ttl (snd (cache_get c k' now))"
proof (cases "map_of (lruList c) k'")
  case None
  with assms show ?thesis by (simp add: cache_get_def)
next
  case (Some e)
  then have "(k', e) \<in> set (lruList c)" by (rule map_of_SomeD)
  with assms Some show ?thesis by (auto simp: stamped_def cache_get_def)
qed

lemma stamped_run:
  assumes "last_put k ops = Some (s, ttl)"
  shows "stamped k s ttl (cache_run c ops)"
  using assms
proof (induction ops arbitrary: s ttl rule: rev_induct)
  case Nil
  then show ?case by (simp add: last_put_def)
next
  case (snoc ev ops)
  have r: "cache_run c (ops @ [ev]) = cache_step (cache_run c ops) ev"
    by (simp add: cache_run_def)
  have l: "last_put k (ops @ [ev]) = put_stamp k (last_put k ops) ev"
    by (simp add: last_put_def)
  show ?case
  proof (cases ev)
    case (Put k' v ttl' now)
    show ?thesis
    proof (cases "k' = k")
      case True
      with snoc.prems Put l have "now = s" "ttl' = ttl" by simp_all
      with True Put show ?thesis unfolding r by (simp add: stamped_after_put)
    next
      case False
      with snoc.prems Put l have "last_put k ops = Some (s, ttl)" by simp
      from stamped_put_other [OF snoc.IH [OF this] False] Put show ?thesis
        unfolding r by simp
    qed
  next
    case (Get k' now)
    with snoc.prems l have "last_put k ops = Some (s, ttl)" by simp
    from stamped_get [OF snoc.IH [OF this]] Get show ?thesis unfolding r by simp
  qed
qed

lemma expired_get:
  assumes "stamped k s ttl c" and "0 < ttl" and "s + ttl \<le> t"
  shows "fst (cache_get c k t) = None \<and> k \<notin> set (resident_keys (snd (cache_get c k t)))"
proof (cases "map_of (lruList c) k")
  case None
  then have "k \<notin> fst ` set (lruList c)" by (simp add: map_of_eq_None_iff)
  with None show ?thesis by (simp add: cache_get_def resident_keys_def)
next
  case (Some e)
  then have "(k, e) \<in> set (lruList c)" by (rule map_of_SomeD)
  with assms(1) have "lastAccess e = s" "ttlSeconds e = ttl" unfolding stamped_def by auto
  with assms(2,3) have "\<not> is_live t e" by (simp add: is_live_def)
  with Some show ?thesis by (auto simp: cache_get_def resident_keys_def)
qed

text \<open>
  Claim C2. After any run of puts and gets on any cache, let the key have been stored last
  at time \<open>s\<close> with a TTL \<open>ttl > 0\<close>. A \<open>get\<close> of the key at any time \<open>t \<ge> s + ttl\<close> returns
  absent, and the key is not resident afterwards. Gets of the key between the put and the
  expiry do not delay the expiry.
\<close>

theorem expired_entry_is_absent:
  assumes "last_put k ops = Some (s, ttl)" and "0 < ttl" and "s + ttl \<le> t"
  shows "fst (cache_get (cache_run c ops) k t) = None \<and>
         k \<notin> set (resident_keys (snd (cache_get (cache_run c ops) k t)))"
  by (rule expired_get [OF stamped_run [OF assms(1)] assms(2,3)])

theorem expired_entry_is_absent_witness:
  "last_put (1::nat) [Put 1 (7::nat) 10 0, Put 2 8 0 3, Get 1 5, Get 2 6, Get 1 9] = Some (0, 10) \<and>
   (0::nat) < 10 \<and> (0::nat) + 10 \<le> 10 \<and>
   fst (cache_get (cache_run (DynamicCache_new 2 0)
          [Put 1 (7::nat) 10 0, Put 2 8 0 3, Get 1 5, Get 2 6, Get 1 9]) (1::nat) 10) = None"
  using expired_entry_is_absent [of "1::nat"
      "[Put 1 (7::nat) 10 0, Put 2 8 0 3, Get 1 5, Get 2 6, Get 1 9]" 0 10 10 "DynamicCache_new 2 0"]
  by (simp add: last_put_def)

text \<open>
  A hit before the expiry returns the value and does not move the expiry: the key stored at
  time 0 with TTL 10 is found at times 5 and 9 and is absent at time 10.
\<close>

lemma ttl_scenario:
  "fst (cache_get (cache_put (DynamicCache_new 2 0) (1::nat) (7::nat) 10 0) 1 5) = Some 7 \<and>
   fst (cache_get (cache_run (DynamicCache_new 2 0) [Put (1::nat) (7::nat) 10 0, Get 1 5]) 1 9)
     = Some 7 \<and>
   fst (cache_get (cache_run (DynamicCache_new 2 0) [Put (1::nat) (7::nat) 10 0, Get 1 5, Get 1 9])
          1 10) = None"
  by (simp add: cache_run_def cache_put_def cache_get_def DynamicCache_new_def
      is_live_def evictIfNeeded.simps evictLRU_def Let_def)

theorem lru_capacity_after_distinct_puts_witness:
  "distinct (map fst [(1::nat, 10::nat, 0::nat, 0::nat), (2, 20, 0, 1), (3, 30, 0, 2)]) \<and>
   length [(1::nat, 10::nat, 0::nat, 0::nat), (2, 20, 0, 1), (3, 30, 0, 2)]
     > allocatedSize (DynamicCache_new 2 0 :: (nat, nat) DynamicCache) \<and>
   length (lruList (DynamicCache_new 2 0 :: (nat, nat) DynamicCache))
     \<le> allocatedSize (DynamicCache_new 2 0 :: (nat, nat) DynamicCache) \<and>
   lruList (DynamicCache_new 2 0 :: (nat, nat) DynamicCache) = [] \<and>
   cache_size (put_all (DynamicCache_new 2 0) [(1::nat, 10::nat, 0::nat, 0::nat), (2, 20, 0, 1), (3, 30, 0, 2)]) = 2 \<and>
   resident_keys (put_all (DynamicCache_new 2 0) [(1::nat, 10::nat, 0::nat, 0::nat), (2, 20, 0, 1), (3, 30, 0, 2)]) = [3, 2] \<and>
   evictions (put_all (DynamicCache_new 2 0) [(1::nat, 10::nat, 0::nat, 0::nat), (2, 20, 0, 1), (3, 30, 0, 2)]) = [(1, 10)]"
  using lru_capacity_after_distinct_puts [of "[(1::nat, 10::nat, 0::nat, 0::nat), (2, 20, 0, 1), (3, 30, 0, 2)]"
      "DynamicCache_new 2 0"]
  by (simp add: DynamicCache_new_def)

text \<open>
  The specification's scenario: capacity 4; put a, b, c, d; get a; put e. The residents are
  then e, a, d, c and b is absent.
\<close>

lemma lru_scenario:
  "resident_keys (cache_run (DynamicCache_new 4 0)
     [Put ''a'' [1::nat] 0 0, Put ''b'' [2] 0 1, Put ''c'' [3] 0 2, Put ''d'' [4] 0 3,
      Get ''a'' 4, Put ''e'' [5] 0 5]) = [''e'', ''a'', ''d'', ''c'']"
  by (simp add: cache_run_def cache_put_def cache_get_def DynamicCache_new_def resident_keys_def
      is_live_def evictIfNeeded.simps evictLRU_def Let_def)

section \<open>Theorems: thread pool\<close>

text \<open>
  Claim C7, as stated: after \<open>stop()\<close> every closure still queued is discarded and never
  executed. It fails on a pool with one waiting worker and one queued closure: the worker's
  next step after the stop request runs the closure.
\<close>

theorem stop_counterexample:
  "executed (pool_run (stop_request
      \<lparr>tasks = [1::nat], stop = False, workers = [Waiting], activeThreads = 0,
       queueSize = 10, executed = []\<rparr>) [0]) = [1]"
  by (simp add: pool_run_def stop_request_def processTasks_step_def)

lemma processTasks_step_conserves:
  "executed (processTasks_step p i) @ tasks (processTasks_step p i) = executed p @ tasks p"
  by (simp add: processTasks_step_def split: worker_state.splits list.splits)

lemma processTasks_step_stop:
  "stop (processTasks_step p i) = stop p"
  by (simp add: processTasks_step_def split: worker_state.splits list.splits)

lemma processTasks_step_workers:
  "length (workers (processTasks_step p i)) = length (workers p)"
  by (simp add: processTasks_step_def split: worker_state.splits list.splits)

lemma exited_after_update:
  assumes "Exited \<in> set (ws[i := w])" and "w \<noteq> Exited"
  shows "Exited \<in> set ws"
  using assms set_update_subset_insert [of ws i w] by auto

lemma processTasks_step_exit_invariant:
  assumes "Exited \<in> set (workers p) \<longrightarrow> tasks p = []"
  shows "Exited \<in> set (workers (processTasks_step p i)) \<longrightarrow> tasks (processTasks_step p i) = []"
proof (cases "i \<ge> length (workers p)")
  case True
  with assms show ?thesis by (simp add: processTasks_step_def)
next
  case False
  show ?thesis
  proof (cases "workers p ! i")
    case Waiting
    show ?thesis
    proof (cases "tasks p")
      case Nil
      with Waiting False show ?thesis by (simp add: processTasks_step_def)
    next
      case (Cons t rest)
      with assms have "Exited \<notin> set (workers p)" by auto
      then have "Exited \<notin> set ((workers p)[i := Busy t])"
        using exited_after_update [of "workers p" i "Busy t"] by auto
      with Waiting False Cons show ?thesis by (simp add: processTasks_step_def)
    qed
  next
    case (Busy t)
    have "Exited \<in> set ((workers p)[i := Waiting]) \<longrightarrow> Exited \<in> set (workers p)"
      using exited_after_update [of "workers p" i Waiting] by auto
    with Busy False assms show ?thesis by (simp add: processTasks_step_def)
  next
    case Exited
    with False assms show ?thesis by (simp add: processTasks_step_def)
  qed
qed

lemma pool_run_conserves:
  "executed (pool_run p sched) @ tasks (pool_run p sched) = executed p @ tasks p"
proof (induction sched arbitrary: p)
  case Nil
  then show ?case by (simp add: pool_run_def)
next
  case (Cons i sched)
  have "pool_run p (i # sched) = pool_run (processTasks_step p i) sched"
    by (simp add: pool_run_def)
  with Cons [of "processTasks_step p i"] show ?case
    by (simp add: processTasks_step_conserves)
qed

lemma pool_run_exit_invariant:
  assumes "Exited \<in> set (workers p) \<longrightarrow> tasks p = []"
  shows "Exited \<in> set (workers (pool_run p sched)) \<longrightarrow> tasks (pool_run p sched) = []"
  using assms
proof (induction sched arbitrary: p)
  case Nil
  then show ?case by (simp add: pool_run_def)
next
  case (Cons i sched)
  have r: "pool_run p (i # sched) = pool_run (processTasks_step p i) sched"
    by (simp add: pool_run_def)
  show ?case unfolding r
    by (rule Cons.IH) (rule processTasks_step_exit_invariant [OF Cons.prems])
qed

lemma pool_run_workers:
  "length (workers (pool_run p sched)) = length (workers p)"
proof (induction sched arbitrary: p)
  case Nil
  then show ?case by (simp add: pool_run_def)
next
  case (Cons i sched)
  have "pool_run p (i # sched) = pool_run (processTasks_step p i) sched"
    by (simp add: pool_run_def)
  with Cons [of "processTasks_step p i"] show ?case
    by (simp add: processTasks_step_workers)
qed

text \<open>
  Claim C7, amended: \<open>stop()\<close> discards nothing. After the stop request, whatever the
  workers' schedule, every closure that was queued is still queued or has been started; a
  worker leaves only on an empty queue, so once \<open>stop()\<close> has returned (the pool had a
  worker, none had left before, all have left now) the queue is empty and every closure that
  was queued at the stop request has been started, in queue order.
\<close>

theorem stop_drains_queue:
  "executed (pool_run (stop_request p) sched) @ tasks (pool_run (stop_request p) sched)
     = executed p @ tasks p \<and>
   (workers p \<noteq> [] \<and> Exited \<notin> set (workers p) \<and> stop_returned (pool_run (stop_request p) sched)
      \<longrightarrow> tasks (pool_run (stop_request p) sched) = [] \<and>
          executed (pool_run (stop_request p) sched) = executed p @ tasks p)"
proof -
  define q where "q = pool_run (stop_request p) sched"
  have c: "executed q @ tasks q = executed p @ tasks p"
    unfolding q_def using pool_run_conserves [of "stop_request p" sched]
    by (simp add: stop_request_def)
  have d: "tasks q = []"
    if w: "workers p \<noteq> []" and n: "Exited \<notin> set (workers p)" and r: "stop_returned q"
  proof -
    have "Exited \<in> set (workers (stop_request p)) \<longrightarrow> tasks (stop_request p) = []"
      using n by (simp add: stop_request_def)
    then have inv: "Exited \<in> set (workers q) \<longrightarrow> tasks q = []"
      unfolding q_def by (rule pool_run_exit_invariant)
    have "length (workers q) = length (workers p)"
      unfolding q_def using pool_run_workers [of "stop_request p" sched]
      by (simp add: stop_request_def)
    with w have "workers q \<noteq> []" by auto
    then obtain x xs where "workers q = x # xs" by (cases "workers q") auto
    with r have "Exited \<in> set (workers q)" by (simp add: stop_returned_def)
    with inv show ?thesis by simp
  qed
  from c d show ?thesis unfolding q_def [symmetric] by auto
qed

theorem stop_drains_queue_witness:
  "[Waiting] \<noteq> [] \<and> Exited \<notin> set [Waiting :: nat worker_state] \<and>
   stop_returned (pool_run (stop_request
      \<lparr>tasks = [1::nat, 2], stop = False, workers = [Waiting], activeThreads = 0,
       queueSize = 10, executed = []\<rparr>) [0, 0, 0, 0, 0]) \<and>
   executed (pool_run (stop_request
      \<lparr>tasks = [1::nat, 2], stop = False, workers = [Waiting], activeThreads = 0,
       queueSize = 10, executed = []\<rparr>) [0, 0, 0, 0, 0]) = [1, 2]"
proof -
  have r: "stop_returned (pool_run (stop_request
      \<lparr>tasks = [1::nat, 2], stop = False, workers = [Waiting], activeThreads = 0,
       queueSize = 10, executed = []\<rparr>) [0, 0, 0, 0, 0])"
    by (simp add: pool_run_def stop_request_def processTasks_step_def stop_returned_def)
  show ?thesis
    using r stop_drains_queue [of "\<lparr>tasks = [1::nat, 2], stop = False, workers = [Waiting],
       activeThreads = 0, queueSize = 10, executed = []\<rparr>" "[0, 0, 0, 0, 0]"]
    by simp
qed


section \<open>Theorems: kernel task queue\<close>

lemma item_less_le: "item_less fn_less a b \<Longrightarrow> fst a \<le> fst b"
  by (auto simp: item_less_def)

lemma not_item_less_ge: "\<not> item_less fn_less a b \<Longrightarrow> fst b \<le> fst a"
  by (auto simp: item_less_def)

lemma parent_less: "0 < i \<Longrightarrow> (i - 1) div 2 < (i::nat)"
  by auto

lemma child_greater: "0 < c \<Longrightarrow> (c - 1) div 2 = h \<Longrightarrow> h < (c::nat)"
  by auto

lemma hole_move_up:
  assumes inv: "hole_inv n xs h"
    and ch: "\<forall>c < n. 0 < c \<and> (c - 1) div 2 = h \<longrightarrow> fst (xs ! c) \<le> fst v"
    and h: "0 < h" "h < n" "n \<le> length xs"
    and lt: "fst (xs ! ((h - 1) div 2)) \<le> fst v"
  shows "hole_inv n (xs[h := xs ! ((h - 1) div 2)]) ((h - 1) div 2)"
    and "\<forall>c < n. 0 < c \<and> (c - 1) div 2 = (h - 1) div 2 \<longrightarrow>
           fst ((xs[h := xs ! ((h - 1) div 2)]) ! c) \<le> fst v"
proof -
  define p where "p = (h - 1) div 2"
  define ys where "ys = xs[h := xs ! p]"
  have ph: "p < h" unfolding p_def using h(1) by auto
  have i1: "fst (xs ! i) \<le> fst (xs ! ((i - 1) div 2))" if "i < n" "0 < i" "i \<noteq> h" for i
    using inv that unfolding hole_inv_def by blast
  have i2: "fst (xs ! c) \<le> fst (xs ! p)" if "c < n" "0 < c" "(c - 1) div 2 = h" for c
    using inv that h(1) unfolding hole_inv_def p_def by blast
  have yh: "ys ! h = xs ! p" unfolding ys_def using h by simp
  have yo: "ys ! i = xs ! i" if "i \<noteq> h" for i unfolding ys_def using that by simp
  have a: "fst (ys ! i) \<le> fst (ys ! ((i - 1) div 2))" if "i < n" "0 < i" "i \<noteq> p" for i
  proof (cases "i = h")
    case True
    then show ?thesis using yh yo [of p] ph by (simp add: p_def)
  next
    case False
    show ?thesis
    proof (cases "(i - 1) div 2 = h")
      case True
      then show ?thesis using i2 [OF that(1,2) True] yh yo [OF False] by simp
    next
      case f2: False
      then show ?thesis using i1 [OF that(1,2) False] yo [OF False] yo [OF f2] by simp
    qed
  qed
  have pp: "fst (xs ! p) \<le> fst (xs ! ((p - 1) div 2))" if "0 < p"
    using i1 [of p] that ph h by simp
  have b: "fst (ys ! c) \<le> fst (ys ! ((p - 1) div 2))"
    if "c < n" "0 < c" "(c - 1) div 2 = p" "0 < p" for c
  proof -
    have np: "(p - 1) div 2 \<noteq> h" using ph that(4) by auto
    show ?thesis
    proof (cases "c = h")
      case True
      then show ?thesis using yh yo [OF np] pp [OF that(4)] by simp
    next
      case False
      have "fst (xs ! c) \<le> fst (xs ! p)" using i1 [OF that(1,2) False] that(3) by simp
      then show ?thesis using yo [OF False] yo [OF np] pp [OF that(4)] by simp
    qed
  qed
  have c: "fst (ys ! c) \<le> fst v" if "c < n" "0 < c" "(c - 1) div 2 = p" for c
  proof (cases "c = h")
    case True
    then show ?thesis using yh lt by (simp add: p_def)
  next
    case False
    have "fst (xs ! c) \<le> fst (xs ! p)" using i1 [OF that(1,2) False] that(3) by simp
    then show ?thesis using yo [OF False] lt by (simp add: p_def)
  qed
  show "hole_inv n (xs[h := xs ! ((h - 1) div 2)]) ((h - 1) div 2)"
    unfolding hole_inv_def p_def [symmetric] ys_def [symmetric] using a b by blast
  show "\<forall>c < n. 0 < c \<and> (c - 1) div 2 = (h - 1) div 2 \<longrightarrow>
           fst ((xs[h := xs ! ((h - 1) div 2)]) ! c) \<le> fst v"
    unfolding p_def [symmetric] ys_def [symmetric] using c by blast
qed

lemma hole_fill:
  assumes inv: "hole_inv n xs h"
    and ch: "\<forall>c < n. 0 < c \<and> (c - 1) div 2 = h \<longrightarrow> fst (xs ! c) \<le> fst v"
    and h: "h < n" "n \<le> length xs"
    and ge: "h = 0 \<or> fst v \<le> fst (xs ! ((h - 1) div 2))"
  shows "heap_upto n (xs[h := v])"
  unfolding heap_upto_def
proof (intro allI impI)
  fix i assume i: "i < n" "0 < i"
  show "fst (xs[h := v] ! i) \<le> fst (xs[h := v] ! ((i - 1) div 2))"
  proof (cases "i = h")
    case True
    then have "(i - 1) div 2 \<noteq> h" using i(2) by auto
    then show ?thesis using True ge i h by simp
  next
    case False
    show ?thesis
    proof (cases "(i - 1) div 2 = h")
      case True
      then show ?thesis using ch i False h by simp
    next
      case f2: False
      then show ?thesis using inv i False unfolding hole_inv_def by simp
    qed
  qed
qed

lemma push_heap_impl_heap:
  assumes "hole_inv n xs h"
    and "\<forall>c < n. 0 < c \<and> (c - 1) div 2 = h \<longrightarrow> fst (xs ! c) \<le> fst v"
    and "h < n" "n \<le> length xs"
  shows "heap_upto n (push_heap_impl fn_less xs h 0 v)"
  using assms
proof (induction fn_less xs h "0::nat" v rule: push_heap_impl.induct)
  case (1 fn_less xs h v)
  show ?case
  proof (cases "h > 0 \<and> item_less fn_less (xs ! ((h - 1) div 2)) v")
    case True
    then have lt: "fst (xs ! ((h - 1) div 2)) \<le> fst v" and h0: "0 < h"
      by (auto dest: item_less_le)
    have e: "push_heap_impl fn_less xs h 0 v =
        push_heap_impl fn_less (xs[h := xs ! ((h - 1) div 2)]) ((h - 1) div 2) 0 v"
      using True by (simp add: push_heap_impl.simps [of fn_less xs h 0 v])
    note m = hole_move_up [OF "1.prems"(1,2) h0 "1.prems"(3,4) lt]
    have "(h - 1) div 2 < n" using "1.prems"(3) h0 by auto
    moreover have "n \<le> length (xs[h := xs ! ((h - 1) div 2)])" using "1.prems"(4) by simp
    ultimately show ?thesis unfolding e using "1.hyps" [OF True m(1) m(2)] by simp
  next
    case False
    have e: "push_heap_impl fn_less xs h 0 v = xs[h := v]"
      by (subst push_heap_impl.simps) (simp only: False if_False)
    have "h = 0 \<or> fst v \<le> fst (xs ! ((h - 1) div 2))"
      using False by (auto dest: not_item_less_ge)
    then show ?thesis unfolding e using hole_fill [OF "1.prems"] by simp
  qed
qed


lemma push_heap_impl_length:
  "length (push_heap_impl fn_less xs h tp v) = length xs"
proof (induction fn_less xs h tp v rule: push_heap_impl.induct)
  case (1 fn_less xs h tp v)
  show ?case
  proof (cases "h > tp \<and> item_less fn_less (xs ! ((h - 1) div 2)) v")
    case True
    have e: "push_heap_impl fn_less xs h tp v =
        push_heap_impl fn_less (xs[h := xs ! ((h - 1) div 2)]) ((h - 1) div 2) tp v"
      by (subst push_heap_impl.simps) (simp only: True if_True simp_thms)
    show ?thesis unfolding e using "1.IH" [OF True] by simp
  next
    case False
    have e: "push_heap_impl fn_less xs h tp v = xs[h := v]"
      by (subst push_heap_impl.simps) (simp only: False if_False)
    show ?thesis unfolding e by simp
  qed
qed

lemma push_heap_impl_beyond:
  assumes "h < j"
  shows "push_heap_impl fn_less xs h tp v ! j = xs ! j"
  using assms
proof (induction fn_less xs h tp v rule: push_heap_impl.induct)
  case (1 fn_less xs h tp v)
  show ?case
  proof (cases "h > tp \<and> item_less fn_less (xs ! ((h - 1) div 2)) v")
    case True
    have e: "push_heap_impl fn_less xs h tp v =
        push_heap_impl fn_less (xs[h := xs ! ((h - 1) div 2)]) ((h - 1) div 2) tp v"
      by (subst push_heap_impl.simps) (simp only: True if_True simp_thms)
    have "(h - 1) div 2 < j" using "1.prems" by auto
    from "1.IH" [OF True this] show ?thesis unfolding e using "1.prems" by simp
  next
    case False
    have e: "push_heap_impl fn_less xs h tp v = xs[h := v]"
      by (subst push_heap_impl.simps) (simp only: False if_False)
    show ?thesis unfolding e using "1.prems" by simp
  qed
qed

lemma mset_move_hole:
  assumes "h < length xs" "s < length xs" "h \<noteq> s"
  shows "mset (xs[h := xs ! s, s := v]) = mset (xs[h := v])"
proof -
  let ?ls = "xs[h := v]"
  have "mset (?ls[s := ?ls ! h, h := ?ls ! s]) = mset ?ls"
    by (rule mset_swap) (use assms in simp_all)
  moreover have "?ls[s := ?ls ! h, h := ?ls ! s] = xs[h := xs ! s, s := v]"
    using assms by (simp add: list_update_swap [of h s])
  ultimately show ?thesis by simp
qed

lemma push_heap_impl_mset:
  assumes "h < length xs"
  shows "mset (push_heap_impl fn_less xs h tp v) = mset (xs[h := v])"
  using assms
proof (induction fn_less xs h tp v rule: push_heap_impl.induct)
  case (1 fn_less xs h tp v)
  show ?case
  proof (cases "h > tp \<and> item_less fn_less (xs ! ((h - 1) div 2)) v")
    case True
    define p where "p = (h - 1) div 2"
    have e: "push_heap_impl fn_less xs h tp v = push_heap_impl fn_less (xs[h := xs ! p]) p tp v"
      unfolding p_def by (subst push_heap_impl.simps) (simp only: True if_True simp_thms)
    have ph: "p < h" unfolding p_def using True by auto
    then have pl: "p < length (xs[h := xs ! p])" using "1.prems" by simp
    have "mset (push_heap_impl fn_less xs h tp v) = mset (xs[h := xs ! p, p := v])"
      unfolding e using "1.IH" [OF True] pl unfolding p_def by simp
    also have "\<dots> = mset (xs[h := v])"
      using mset_move_hole [of h xs p v] "1.prems" ph by simp
    finally show ?thesis .
  next
    case False
    have e: "push_heap_impl fn_less xs h tp v = xs[h := v]"
      by (subst push_heap_impl.simps) (simp only: False if_False)
    show ?thesis unfolding e by simp
  qed
qed

lemma pq_push_heap:
  assumes "is_heap q"
  shows "is_heap (pq_push fn_less q x)"
proof -
  let ?xs = "q @ [x]"
  let ?n = "Suc (length q)"
  have inv: "hole_inv ?n ?xs (length q)"
    unfolding hole_inv_def
  proof (intro conjI allI impI)
    fix i assume "i < ?n" "0 < i \<and> i \<noteq> length q"
    then have i: "i < length q" "0 < i" by auto
    then have "(i - 1) div 2 < length q" by auto
    with i assms show "fst (?xs ! i) \<le> fst (?xs ! ((i - 1) div 2))"
      unfolding is_heap_def heap_upto_def by (simp add: nth_append)
  next
    fix c assume "c < ?n" "0 < c \<and> (c - 1) div 2 = length q \<and> 0 < length q"
    then have False by auto
    then show "fst (?xs ! c) \<le> fst (?xs ! ((length q - 1) div 2))" ..
  qed
  have ch: "\<forall>c < ?n. 0 < c \<and> (c - 1) div 2 = length q \<longrightarrow> fst (?xs ! c) \<le> fst x"
    by auto
  have "heap_upto ?n (push_heap_impl fn_less ?xs (length q) 0 x)"
    by (rule push_heap_impl_heap [OF inv ch]) simp_all
  then show ?thesis
    by (simp add: is_heap_def pq_push_def push_heap_impl_length)
qed

lemma pq_push_mset: "mset (pq_push fn_less q x) = mset q + {#x#}"
  by (simp add: pq_push_def push_heap_impl_mset)


lemma hole_move_down:
  assumes inv: "hole_inv n xs h"
    and s: "s < n" "0 < s" "(s - 1) div 2 = h" "n \<le> length xs"
    and sib: "\<forall>t < n. 0 < t \<and> (t - 1) div 2 = h \<and> t \<noteq> s \<longrightarrow> fst (xs ! t) \<le> fst (xs ! s)"
  shows "hole_inv n (xs[h := xs ! s]) s"
proof -
  define ys where "ys = xs[h := xs ! s]"
  have hs: "h < s" using s(2,3) by auto
  have hl: "h < length xs" using hs s(1,4) by simp
  have i1: "fst (xs ! i) \<le> fst (xs ! ((i - 1) div 2))" if "i < n" "0 < i" "i \<noteq> h" for i
    using inv that unfolding hole_inv_def by blast
  have i2: "fst (xs ! c) \<le> fst (xs ! ((h - 1) div 2))"
    if "c < n" "0 < c" "(c - 1) div 2 = h" "0 < h" for c
    using inv that unfolding hole_inv_def by blast
  have yh: "ys ! h = xs ! s" unfolding ys_def using hl by simp
  have yo: "ys ! i = xs ! i" if "i \<noteq> h" for i unfolding ys_def using that by simp
  have a: "fst (ys ! i) \<le> fst (ys ! ((i - 1) div 2))" if "i < n" "0 < i" "i \<noteq> s" for i
  proof (cases "i = h")
    case True
    then have "(h - 1) div 2 \<noteq> h" using that(2) by auto
    then show ?thesis using True yh yo [of "(h - 1) div 2"] i2 [OF s(1,2,3)] that(2) by simp
  next
    case False
    show ?thesis
    proof (cases "(i - 1) div 2 = h")
      case True
      then show ?thesis using sib that yh yo [OF False] by simp
    next
      case f2: False
      then show ?thesis using i1 [OF that(1,2) False] yo [OF False] yo [OF f2] by simp
    qed
  qed
  have b: "fst (ys ! c) \<le> fst (ys ! ((s - 1) div 2))"
    if "c < n" "0 < c" "(c - 1) div 2 = s" for c
  proof -
    have "s < c" using that(2,3) by auto
    then have ch: "c \<noteq> h" using hs by simp
    from i1 [OF that(1,2) ch] that(3) show ?thesis
      using yo [OF ch] yh s(3) by simp
  qed
  show ?thesis
    unfolding hole_inv_def ys_def [symmetric] using a b by blast
qed

lemma adjust_heap_loop_step:
  assumes "h < (len - 1) div 2"
  shows "adjust_heap_loop fn_less xs h len =
     adjust_heap_loop fn_less
       (xs[h := xs ! (if item_less fn_less (xs ! (2 * (h + 1))) (xs ! (2 * (h + 1) - 1))
                      then 2 * (h + 1) - 1 else 2 * (h + 1))])
       (if item_less fn_less (xs ! (2 * (h + 1))) (xs ! (2 * (h + 1) - 1))
        then 2 * (h + 1) - 1 else 2 * (h + 1)) len"
  apply (subst adjust_heap_loop.simps)
  using assms apply (simp add: Let_def)
  done

lemma adjust_heap_loop_stop:
  assumes "\<not> h < (len - 1) div 2"
  shows "adjust_heap_loop fn_less xs h len = (xs, h)"
  apply (subst adjust_heap_loop.simps)
  using assms apply simp
  done

lemma adjust_heap_loop_inv:
  assumes "hole_inv len xs h" and "h < len" and "len \<le> length xs"
  shows "hole_inv len (fst (adjust_heap_loop fn_less xs h len)) (snd (adjust_heap_loop fn_less xs h len)) \<and>
         snd (adjust_heap_loop fn_less xs h len) < len \<and>
         \<not> snd (adjust_heap_loop fn_less xs h len) < (len - 1) div 2 \<and>
         length (fst (adjust_heap_loop fn_less xs h len)) = length xs \<and>
         (\<forall>j \<ge> len. fst (adjust_heap_loop fn_less xs h len) ! j = xs ! j) \<and>
         mset ((fst (adjust_heap_loop fn_less xs h len))[snd (adjust_heap_loop fn_less xs h len) := v])
           = mset (xs[h := v])"
  using assms
proof (induction fn_less xs h len rule: adjust_heap_loop.induct)
  case (1 fn_less xs h len)
  show ?case
  proof (cases "h < (len - 1) div 2")
    case True
    define s0 where "s0 = 2 * (h + 1)"
    define s where "s = (if item_less fn_less (xs ! s0) (xs ! (s0 - 1)) then s0 - 1 else s0)"
    define ys where "ys = xs[h := xs ! s]"
    have e: "adjust_heap_loop fn_less xs h len = adjust_heap_loop fn_less ys s len"
      unfolding ys_def s_def s0_def by (rule adjust_heap_loop_step [OF True])
    have s0l: "s0 < len" using True unfolding s0_def by auto
    have sl: "s < len" using s0l unfolding s_def by auto
    have s0: "0 < s" unfolding s_def s0_def by auto
    have sp: "(s - 1) div 2 = h" unfolding s_def s0_def by auto
    have hs: "h < s" using sp s0 by auto
    have sib: "\<forall>t < len. 0 < t \<and> (t - 1) div 2 = h \<and> t \<noteq> s \<longrightarrow> fst (xs ! t) \<le> fst (xs ! s)"
    proof (intro allI impI)
      fix t assume "t < len" and t: "0 < t \<and> (t - 1) div 2 = h \<and> t \<noteq> s"
      then have "t = s0 \<or> t = s0 - 1" unfolding s0_def by auto
      then show "fst (xs ! t) \<le> fst (xs ! s)"
        using t item_less_le [of fn_less "xs ! s0" "xs ! (s0 - 1)"]
          not_item_less_ge [of fn_less "xs ! s0" "xs ! (s0 - 1)"]
        unfolding s_def by (auto split: if_splits)
    qed
    have inv: "hole_inv len ys s"
      unfolding ys_def by (rule hole_move_down [OF "1.prems"(1) sl s0 sp "1.prems"(3) sib])
    have ylen: "len \<le> length ys" using "1.prems"(3) unfolding ys_def by simp
    have ih: "hole_inv len (fst (adjust_heap_loop fn_less ys s len)) (snd (adjust_heap_loop fn_less ys s len)) \<and>
         snd (adjust_heap_loop fn_less ys s len) < len \<and>
         \<not> snd (adjust_heap_loop fn_less ys s len) < (len - 1) div 2 \<and>
         length (fst (adjust_heap_loop fn_less ys s len)) = length ys \<and>
         (\<forall>j \<ge> len. fst (adjust_heap_loop fn_less ys s len) ! j = ys ! j) \<and>
         mset ((fst (adjust_heap_loop fn_less ys s len))[snd (adjust_heap_loop fn_less ys s len) := v])
           = mset (ys[s := v])"
      using "1.IH" [OF True refl refl inv [unfolded ys_def s_def s0_def]
          sl [unfolded s_def s0_def] ylen [unfolded ys_def s_def s0_def]]
      unfolding ys_def s_def s0_def .
    have m: "mset (ys[s := v]) = mset (xs[h := v])"
      unfolding ys_def using mset_move_hole [of h xs s v] hs sl "1.prems"(3) by simp
    have by_: "\<forall>j \<ge> len. ys ! j = xs ! j"
      unfolding ys_def using "1.prems"(2) by simp
    show ?thesis unfolding e using ih m by_ by (simp add: ys_def)
  next
    case False
    have e: "adjust_heap_loop fn_less xs h len = (xs, h)" by (rule adjust_heap_loop_stop [OF False])
    show ?thesis unfolding e using "1.prems" False by simp
  qed
qed


lemma adjust_heap_correct:
  assumes inv: "hole_inv len xs 0" and len: "0 < len" "len \<le> length xs"
  shows "heap_upto len (adjust_heap fn_less xs 0 len v) \<and>
         length (adjust_heap fn_less xs 0 len v) = length xs \<and>
         (\<forall>j \<ge> len. adjust_heap fn_less xs 0 len v ! j = xs ! j) \<and>
         mset (adjust_heap fn_less xs 0 len v) = mset (xs[0 := v])"
proof -
  define xs1 where "xs1 = fst (adjust_heap_loop fn_less xs 0 len)"
  define h1 where "h1 = snd (adjust_heap_loop fn_less xs 0 len)"
  have l: "adjust_heap_loop fn_less xs 0 len = (xs1, h1)" by (simp add: xs1_def h1_def)
  from adjust_heap_loop_inv [OF inv len, where v = v and fn_less = fn_less]
  have inv1: "hole_inv len xs1 h1" and h1l: "h1 < len" and ex: "\<not> h1 < (len - 1) div 2"
    and len1: "length xs1 = length xs" and bey1: "\<forall>j \<ge> len. xs1 ! j = xs ! j"
    and ms1: "mset (xs1[h1 := v]) = mset (xs[0 := v])"
    unfolding xs1_def h1_def by simp_all
  define single where "single = (even len \<and> 2 \<le> len \<and> h1 = (len - 2) div 2)"
  define xs2 where "xs2 = (if single then xs1[h1 := xs1 ! (2 * (h1 + 1) - 1)] else xs1)"
  define h2 where "h2 = (if single then 2 * (h1 + 1) - 1 else h1)"
  have a: "adjust_heap fn_less xs 0 len v = push_heap_impl fn_less xs2 h2 0 v"
    by (simp add: adjust_heap_def l xs2_def h2_def single_def)
  have len2: "length xs2 = length xs" by (simp add: xs2_def len1)
  have bey2: "\<forall>j \<ge> len. xs2 ! j = xs ! j" using bey1 h1l by (simp add: xs2_def)
  have h2l: "h2 < len" unfolding h2_def single_def using h1l by auto
  have inv2: "hole_inv len xs2 h2"
  proof (cases single)
    case True
    then have s: "2 * (h1 + 1) - 1 < len" "0 < 2 * (h1 + 1) - 1" "(2 * (h1 + 1) - 1 - 1) div 2 = h1"
      unfolding single_def by auto
    have sib: "\<forall>t < len. 0 < t \<and> (t - 1) div 2 = h1 \<and> t \<noteq> 2 * (h1 + 1) - 1 \<longrightarrow>
        fst (xs1 ! t) \<le> fst (xs1 ! (2 * (h1 + 1) - 1))"
    proof (intro allI impI)
      fix t assume "t < len" and "0 < t \<and> (t - 1) div 2 = h1 \<and> t \<noteq> 2 * (h1 + 1) - 1"
      with True have False unfolding single_def by presburger
      then show "fst (xs1 ! t) \<le> fst (xs1 ! (2 * (h1 + 1) - 1))" ..
    qed
    have "len \<le> length xs1" using len len1 by simp
    from hole_move_down [OF inv1 s this sib] True show ?thesis
      by (simp add: xs2_def h2_def)
  next
    case False
    with inv1 show ?thesis by (simp add: xs2_def h2_def)
  qed
  have nochild: "\<forall>c < len. 0 < c \<and> (c - 1) div 2 = h2 \<longrightarrow> fst (xs2 ! c) \<le> fst v"
  proof (intro allI impI)
    fix c assume c: "c < len" and "0 < c \<and> (c - 1) div 2 = h2"
    then have "2 * h2 + 1 \<le> c" by auto
    moreover have "len \<le> 2 * h2 + 1"
    proof (cases single)
      case True
      then show ?thesis unfolding h2_def single_def by auto
    next
      case False
      then show ?thesis using ex h1l unfolding h2_def single_def by (auto elim!: oddE evenE)
    qed
    ultimately have False using c by simp
    then show "fst (xs2 ! c) \<le> fst v" ..
  qed
  have ms2: "mset (xs2[h2 := v]) = mset (xs[0 := v])"
  proof (cases single)
    case True
    then have ne: "h1 \<noteq> 2 * (h1 + 1) - 1" by auto
    have "2 * (h1 + 1) - 1 < length xs1" using True len len1 unfolding single_def by auto
    moreover have "h1 < length xs1" using h1l len len1 by simp
    ultimately have "mset (xs1[h1 := xs1 ! (2 * (h1 + 1) - 1), 2 * (h1 + 1) - 1 := v]) = mset (xs1[h1 := v])"
      using mset_move_hole [of h1 xs1 "2 * (h1 + 1) - 1" v] ne by simp
    with True ms1 show ?thesis by (simp add: xs2_def h2_def)
  next
    case False
    with ms1 show ?thesis by (simp add: xs2_def h2_def)
  qed
  have l2: "len \<le> length xs2" using len len2 by simp
  have "heap_upto len (push_heap_impl fn_less xs2 h2 0 v)"
    by (rule push_heap_impl_heap [OF inv2 nochild h2l l2])
  moreover have "length (push_heap_impl fn_less xs2 h2 0 v) = length xs"
    by (simp add: push_heap_impl_length len2)
  moreover have "\<forall>j \<ge> len. push_heap_impl fn_less xs2 h2 0 v ! j = xs ! j"
    using push_heap_impl_beyond [where h = h2 and xs = xs2 and tp = 0 and v = v and fn_less = fn_less] h2l bey2 by simp
  moreover have "mset (push_heap_impl fn_less xs2 h2 0 v) = mset (xs[0 := v])"
    using push_heap_impl_mset [where h = h2 and xs = xs2 and tp = 0 and v = v and fn_less = fn_less] h2l l2 ms2 by simp
  ultimately show ?thesis unfolding a by simp
qed

lemma pq_pop_correct:
  assumes "is_heap q" and "q \<noteq> []"
  shows "is_heap (pq_pop fn_less q) \<and> mset (pq_pop fn_less q) + {#q ! 0#} = mset q"
proof (cases "length q > 1")
  case False
  with assms(2) obtain x where "q = [x]" by (cases q) auto
  then show ?thesis by (simp add: pq_pop_def is_heap_def heap_upto_def)
next
  case True
  define n where "n = length q"
  define q' where "q' = q[n - 1 := q ! 0]"
  define R where "R = adjust_heap fn_less q' 0 (n - 1) (last q)"
  have p: "pq_pop fn_less q = butlast R" using True by (simp add: pq_pop_def R_def q'_def n_def)
  have inv: "hole_inv (n - 1) q' 0"
    unfolding hole_inv_def
  proof (intro conjI allI impI)
    fix i assume "i < n - 1" "0 < i \<and> i \<noteq> 0"
    then have i: "i < n - 1" "0 < i" by auto
    then have "(i - 1) div 2 < n - 1" by auto
    with i assms(1) show "fst (q' ! i) \<le> fst (q' ! ((i - 1) div 2))"
      unfolding is_heap_def heap_upto_def q'_def n_def by simp
  next
    fix c assume "c < n - 1" "0 < c \<and> (c - 1) div 2 = 0 \<and> (0::nat) < 0"
    then show "fst (q' ! c) \<le> fst (q' ! ((0 - 1) div 2))" by simp
  qed
  have l: "0 < n - 1" "n - 1 \<le> length q'" using True by (simp_all add: n_def q'_def)
  from adjust_heap_correct [OF inv l, where v = "last q" and fn_less = fn_less]
  have h: "heap_upto (n - 1) R" and len: "length R = n" and bey: "R ! (n - 1) = q ! 0"
    and ms: "mset R = mset (q'[0 := last q])"
    unfolding R_def [symmetric] using True by (simp_all add: q'_def n_def)
  have "is_heap (butlast R)"
    using h len unfolding is_heap_def heap_upto_def by (simp add: nth_butlast)
  moreover have "mset (butlast R) + {#q ! 0#} = mset q"
  proof -
    have "R \<noteq> []" using len True by (auto simp: n_def)
    then have "R = butlast R @ [last R]" by simp
    moreover have "last R = q ! 0" using bey len \<open>R \<noteq> []\<close> by (simp add: last_conv_nth)
    ultimately have "mset R = mset (butlast R @ [q ! 0])" by simp
    then have "mset R = mset (butlast R) + {#q ! 0#}" by simp
    moreover have "mset (q'[0 := last q]) = mset q"
    proof -
      have "last q = q ! (n - 1)" using assms(2) by (simp add: last_conv_nth n_def)
      then have "q'[0 := last q] = q[n - 1 := q ! 0, 0 := q ! (n - 1)]" by (simp add: q'_def)
      moreover have "mset (q[n - 1 := q ! 0, 0 := q ! (n - 1)]) = mset q"
        by (rule mset_swap) (use True in \<open>auto simp: n_def\<close>)
      ultimately show ?thesis by simp
    qed
    ultimately show ?thesis using ms by simp
  qed
  ultimately show ?thesis unfolding p by simp
qed

lemma heap_root_max:
  assumes "is_heap q" and "i < length q"
  shows "fst (q ! i) \<le> fst (q ! 0)"
  using assms(2)
proof (induction i rule: less_induct)
  case (less i)
  show ?case
  proof (cases "i = 0")
    case True
    then show ?thesis by simp
  next
    case False
    then have p: "(i - 1) div 2 < i" by auto
    have "fst (q ! i) \<le> fst (q ! ((i - 1) div 2))"
      using assms(1) less.prems False unfolding is_heap_def heap_upto_def by simp
    moreover have "fst (q ! ((i - 1) div 2)) \<le> fst (q ! 0)"
      using less.IH [OF p] p less.prems by simp
    ultimately show ?thesis by simp
  qed
qed


lemma kernel_step_heap:
  assumes "is_heap (taskQueue k)"
  shows "is_heap (taskQueue (kernel_step fn_less k ev))"
proof (cases ev)
  case (Schedule task prio)
  with assms show ?thesis by (simp add: scheduleTask_def pq_push_heap)
next
  case WorkerTake
  with assms pq_pop_correct [where q = "taskQueue k" and fn_less = fn_less] show ?thesis
    by (auto simp: worker_take_def)
qed

lemma kernel_run_heap:
  assumes "is_heap (taskQueue k)"
  shows "is_heap (taskQueue (kernel_run fn_less k evs))"
  using assms
proof (induction evs arbitrary: k)
  case Nil
  then show ?case by (simp add: kernel_run_def)
next
  case (Cons ev evs)
  have "kernel_run fn_less k (ev # evs) = kernel_run fn_less (kernel_step fn_less k ev) evs"
    by (simp add: kernel_run_def)
  with Cons.IH [OF kernel_step_heap [OF Cons.prems]] show ?case by simp
qed

lemma kernel_step_conserves:
  assumes "running k" and "is_heap (taskQueue k)"
  shows "running (kernel_step fn_less k ev) \<and>
         mset (started (kernel_step fn_less k ev)) + mset (taskQueue (kernel_step fn_less k ev))
           = mset (started k) + mset (taskQueue k) + mset (enqueued [ev])"
proof (cases ev)
  case (Schedule task prio)
  with assms show ?thesis by (simp add: scheduleTask_def pq_push_mset)
next
  case WorkerTake
  show ?thesis
  proof (cases "taskQueue k = []")
    case True
    with WorkerTake assms show ?thesis by (simp add: worker_take_def)
  next
    case False
    from pq_pop_correct [OF assms(2) False, where fn_less = fn_less]
    have "mset (pq_pop fn_less (taskQueue k)) + {#taskQueue k ! 0#} = mset (taskQueue k)" by simp
    then have "mset (started k) + {#taskQueue k ! 0#} + mset (pq_pop fn_less (taskQueue k))
        = mset (started k) + mset (taskQueue k)"
      by (metis add.assoc add.commute)
    with WorkerTake assms False show ?thesis by (simp add: worker_take_def)
  qed
qed

lemma kernel_run_conserves:
  assumes "running k" and "is_heap (taskQueue k)"
  shows "mset (started (kernel_run fn_less k evs)) + mset (taskQueue (kernel_run fn_less k evs))
           = mset (started k) + mset (taskQueue k) + mset (enqueued evs)"
  using assms
proof (induction evs arbitrary: k)
  case Nil
  then show ?case by (simp add: kernel_run_def)
next
  case (Cons ev evs)
  have r: "kernel_run fn_less k (ev # evs) = kernel_run fn_less (kernel_step fn_less k ev) evs"
    by (simp add: kernel_run_def)
  note st = kernel_step_conserves [OF Cons.prems, where ev = ev and fn_less = fn_less]
  have e: "mset (enqueued (ev # evs)) = mset (enqueued [ev]) + mset (enqueued evs)"
    by (cases ev) simp_all
  from Cons.IH [OF conjunct1 [OF st] kernel_step_heap [OF Cons.prems(2)]] st
  show ?case unfolding r e by (simp add: add.assoc)
qed


lemma two_tasks_reversed:
  assumes "fn_less a b"
  shows "kernel_run fn_less CoreKernel_running [Schedule a 5, Schedule b 5, WorkerTake, WorkerTake]
     = \<lparr>running = True, taskQueue = [], started = [(5, b), (5, a)]\<rparr>"
  using assms
  by (simp add: kernel_run_def CoreKernel_running_def scheduleTask_def worker_take_def
      pq_push_def pq_pop_def adjust_heap_def push_heap_impl.simps adjust_heap_loop.simps
      item_less_def Let_def)

lemma four_tasks_unordered:
  assumes "\<And>a b. a \<noteq> b \<Longrightarrow> \<not> fn_less a b"
  shows "kernel_run fn_less CoreKernel_running
      [Schedule (0::nat) 5, Schedule 1 5, Schedule 2 5, Schedule 3 5,
       WorkerTake, WorkerTake, WorkerTake, WorkerTake]
     = \<lparr>running = True, taskQueue = [], started = [(5, 0), (5, 2), (5, 1), (5, 3)]\<rparr>"
proof -
  have f: "fn_less a b = False" if "a \<noteq> b" for a b using assms that by simp
  show ?thesis
    by (simp add: kernel_run_def CoreKernel_running_def scheduleTask_def worker_take_def
        pq_push_def pq_pop_def adjust_heap_def push_heap_impl.simps adjust_heap_loop.simps
        item_less_def Let_def f)
qed

text \<open>
  Claim C3, as stated: on one kernel, the tasks of equal priority start in the order they
  were enqueued. No comparison of closures makes the queue do that: whatever \<open>fn_less\<close> is,
  some tasks of priority 5 are enqueued, all of them are taken by the worker, and they start
  in another order than they were enqueued. When \<open>fn_less\<close> orders two distinct closures
  \<open>a\<close> below \<open>b\<close>, the tasks \<open>a\<close>, \<open>b\<close> start as \<open>b\<close>, \<open>a\<close>; when it orders no two distinct
  closures, the tasks 0, 1, 2, 3 start as 0, 2, 1, 3.
\<close>

theorem fifo_within_priority_counterexample:
  "\<forall>fn_less :: nat \<Rightarrow> nat \<Rightarrow> bool. \<exists>evs.
     map fst (enqueued evs) = replicate (length (enqueued evs)) 5 \<and>
     taskQueue (kernel_run fn_less CoreKernel_running evs) = [] \<and>
     mset (started (kernel_run fn_less CoreKernel_running evs)) = mset (enqueued evs) \<and>
     started (kernel_run fn_less CoreKernel_running evs) \<noteq> enqueued evs"
proof
  fix fn_less :: "nat \<Rightarrow> nat \<Rightarrow> bool"
  show "\<exists>evs.
     map fst (enqueued evs) = replicate (length (enqueued evs)) 5 \<and>
     taskQueue (kernel_run fn_less CoreKernel_running evs) = [] \<and>
     mset (started (kernel_run fn_less CoreKernel_running evs)) = mset (enqueued evs) \<and>
     started (kernel_run fn_less CoreKernel_running evs) \<noteq> enqueued evs"
  proof (cases "\<exists>a b. a \<noteq> b \<and> fn_less a b")
    case True
    then obtain a b where ab: "a \<noteq> b" "fn_less a b" by blast
    let ?evs = "[Schedule a 5, Schedule b 5, WorkerTake, WorkerTake]"
    have r: "kernel_run fn_less CoreKernel_running ?evs
        = \<lparr>running = True, taskQueue = [], started = [(5, b), (5, a)]\<rparr>"
      using ab(2) by (rule two_tasks_reversed)
    have "map fst (enqueued ?evs) = replicate (length (enqueued ?evs)) 5 \<and>
       taskQueue (kernel_run fn_less CoreKernel_running ?evs) = [] \<and>
       mset (started (kernel_run fn_less CoreKernel_running ?evs)) = mset (enqueued ?evs) \<and>
       started (kernel_run fn_less CoreKernel_running ?evs) \<noteq> enqueued ?evs"
      unfolding r using ab(1) by auto
    then show ?thesis by (rule exI)
  next
    case False
    then have n: "\<not> fn_less a b" if "a \<noteq> b" for a b using that by blast
    let ?evs = "[Schedule (0::nat) 5, Schedule 1 5, Schedule 2 5, Schedule 3 5,
            WorkerTake, WorkerTake, WorkerTake, WorkerTake]"
    have r: "kernel_run fn_less CoreKernel_running ?evs
        = \<lparr>running = True, taskQueue = [], started = [(5, 0), (5, 2), (5, 1), (5, 3)]\<rparr>"
      by (rule four_tasks_unordered [OF n])
    have "map fst (enqueued ?evs) = replicate (length (enqueued ?evs)) 5 \<and>
       taskQueue (kernel_run fn_less CoreKernel_running ?evs) = [] \<and>
       mset (started (kernel_run fn_less CoreKernel_running ?evs)) = mset (enqueued ?evs) \<and>
       started (kernel_run fn_less CoreKernel_running ?evs) \<noteq> enqueued ?evs"
      unfolding r by simp
    then show ?thesis by (rule exI)
  qed
qed

text \<open>
  Claim C3, amended: whatever the comparison of closures is, after any sequence of enqueue
  and worker steps on a running kernel every enqueued task is either queued or has started,
  each once; and whenever a worker takes a task from a non-empty queue, it takes a queued
  task whose priority is at least that of every task in the queue. So no task starts while
  a task of higher priority is queued. Among tasks of equal priority the order is that of
  the binary heap and of the comparison of closures, not the order of enqueueing.
\<close>

theorem worker_takes_highest_priority:
  "mset (started (kernel_run fn_less CoreKernel_running evs)) +
     mset (taskQueue (kernel_run fn_less CoreKernel_running evs)) = mset (enqueued evs) \<and>
   (taskQueue (kernel_run fn_less CoreKernel_running evs) \<noteq> [] \<longrightarrow>
      (\<exists>t. started (worker_take fn_less (kernel_run fn_less CoreKernel_running evs))
             = started (kernel_run fn_less CoreKernel_running evs) @ [t] \<and>
           t \<in> set (taskQueue (kernel_run fn_less CoreKernel_running evs)) \<and>
           (\<forall>u \<in> set (taskQueue (kernel_run fn_less CoreKernel_running evs)). fst u \<le> fst t)))"
proof -
  define k where "k = (kernel_run fn_less CoreKernel_running evs :: 'a CoreKernel)"
  have h0: "is_heap (taskQueue (CoreKernel_running :: 'a CoreKernel))"
    by (simp add: CoreKernel_running_def is_heap_def heap_upto_def)
  have r0: "running (CoreKernel_running :: 'a CoreKernel)"
    by (simp add: CoreKernel_running_def)
  have h: "is_heap (taskQueue k)" unfolding k_def by (rule kernel_run_heap [OF h0])
  have c: "mset (started k) + mset (taskQueue k) = mset (enqueued evs)"
    unfolding k_def using kernel_run_conserves [OF r0 h0, where evs = evs and fn_less = fn_less]
    by (simp add: CoreKernel_running_def)
  have t: "\<exists>t. started (worker_take fn_less k) = started k @ [t] \<and> t \<in> set (taskQueue k) \<and>
           (\<forall>u \<in> set (taskQueue k). fst u \<le> fst t)" if ne: "taskQueue k \<noteq> []"
  proof (intro exI conjI ballI)
    show "started (worker_take fn_less k) = started k @ [taskQueue k ! 0]"
      using ne by (simp add: worker_take_def)
    show "taskQueue k ! 0 \<in> set (taskQueue k)" using ne by simp
  next
    fix u assume "u \<in> set (taskQueue k)"
    then obtain i where "i < length (taskQueue k)" "u = taskQueue k ! i"
      by (auto simp: in_set_conv_nth)
    with heap_root_max [OF h] show "fst u \<le> fst (taskQueue k ! 0)" by simp
  qed
  from c t show ?thesis unfolding k_def [symmetric] by blast
qed

theorem worker_takes_highest_priority_witness:
  "taskQueue (kernel_run (\<lambda>a b. a < b) CoreKernel_running
      [Schedule (1::nat) 1, Schedule 2 9, Schedule 3 5]) \<noteq> [] \<and>
   started (worker_take (\<lambda>a b. a < b) (kernel_run (\<lambda>a b. a < b) CoreKernel_running
      [Schedule (1::nat) 1, Schedule 2 9, Schedule 3 5])) = [(9, 2)]"
proof -
  have q: "taskQueue (kernel_run (\<lambda>a b. a < b) CoreKernel_running
      [Schedule (1::nat) 1, Schedule 2 9, Schedule 3 5]) = [(9, 2), (1, 1), (5, 3)]"
    and s: "started (kernel_run (\<lambda>a b. a < b) CoreKernel_running
      [Schedule (1::nat) 1, Schedule 2 9, Schedule 3 5]) = []"
    by (simp_all add: kernel_run_def CoreKernel_running_def scheduleTask_def
      pq_push_def push_heap_impl.simps item_less_def)
  from worker_takes_highest_priority [of "\<lambda>a b. a < b"
      "[Schedule (1::nat) 1, Schedule 2 9, Schedule 3 5]"]
  obtain t where "started (worker_take (\<lambda>a b. a < b) (kernel_run (\<lambda>a b. a < b) CoreKernel_running
      [Schedule (1::nat) 1, Schedule 2 9, Schedule 3 5])) = [t]"
    and "t \<in> set [(9, 2), (1, 1), (5, 3)]"
    and "\<forall>u \<in> set [(9::int, 2::nat), (1, 1), (5, 3)]. fst u \<le> fst t"
    unfolding q s by auto
  then show ?thesis unfolding q by auto
qed

text \<open>
  The specification's scenario: T1 with priority 1, T2 with 9 and T3 with 5 are enqueued
  before the single worker takes any of them; they start as T2, T3, T1, whatever the
  comparison of closures is.
\<close>

lemma priority_scenario:
  "started (kernel_run fn_less CoreKernel_running
      [Schedule ''T1'' 1, Schedule ''T2'' 9, Schedule ''T3'' 5,
       WorkerTake, WorkerTake, WorkerTake])
     = [(9, ''T2''), (5, ''T3''), (1, ''T1'')]"
  by (simp add: kernel_run_def CoreKernel_running_def scheduleTask_def worker_take_def
      pq_push_def pq_pop_def adjust_heap_def push_heap_impl.simps adjust_heap_loop.simps
      item_less_def Let_def)


section \<open>Theorems: recovery manager\<close>

lemma hex_concat_length: "length (concat (map (\<lambda>i. hex2 (f i)) xs)) = 2 * length xs"
  by (induction xs) (simp_all add: hex2_def)

lemma calculateChecksum_length: "length (calculateChecksum cd bs) = 64"
  by (simp add: calculateChecksum_def hex_concat_length)

lemma generatePointId_length: "length (fst (generatePointId m)) = 16"
  by (simp add: generatePointId_def hex_concat_length)

text \<open>The validator accepts exactly the non-empty states; it compares no checksum.\<close>

lemma validateState_nonempty: "validateState cd st \<longleftrightarrow> st \<noteq> []"
proof -
  have "calculateChecksum cd st \<noteq> []"
    using calculateChecksum_length [of cd st] by auto
  then show ?thesis by (simp add: validateState_def Let_def)
qed

text \<open>
  Claim C6, as stated: \<open>restoreFromPoint\<close> validates the stored checksum against the state
  bytes and returns false, firing the error callback, whenever they do not match. It fails
  on the sample manager with state validation disabled: the stored checksum \<open>00\<close> is not
  the digest of the (empty) loaded state, yet the call returns true, hands the state to the
  restore callback and reports no error.
\<close>

theorem restore_skips_checksum_counterexample:
  "fst (restoreFromPoint sample_codec (sample_manager False) ''p1'') = True \<and>
   errorsReported (snd (restoreFromPoint sample_codec (sample_manager False) ''p1'')) = [] \<and>
   map_option checksum (loadCheckpoint (pointConfig (config (sample_manager False)))
       (storage (sample_manager False)) ''p1'') = Some ''00'' \<and>
   restoredStates (snd (restoreFromPoint sample_codec (sample_manager False) ''p1'')) = [[]] \<and>
   calculateChecksum sample_codec [] \<noteq> ''00''"
proof -
  have "length (calculateChecksum sample_codec []) \<noteq> length ''00''"
    by (simp add: calculateChecksum_length)
  then have "calculateChecksum sample_codec [] \<noteq> ''00''" by auto
  then show ?thesis
    by (simp add: restoreFromPoint_def loaded_state_def loadCheckpoint_def sample_manager_def
        path_append_def fromJson_def RecoveryPoint_default_def restore_failed_def handleError_def)
qed


lemma loaded_state_flag:
  "loaded_state cd (m\<lparr>recoveryInProgress := b\<rparr>) pid = loaded_state cd m pid"
  by (simp add: loaded_state_def split: option.splits)

lemma restore_failed_result:
  "\<not> fst (restore_failed m e)"
  "errorCallback m \<Longrightarrow>
     errorsReported (snd (restore_failed m e)) =
       errorsReported m @ [''Failed to restore from point: '' @ e]"
  by (simp_all add: restore_failed_def handleError_def)

lemma restoreFromPoint_load_error:
  assumes "loaded_state cd m pid = Inl e"
  shows "restoreFromPoint cd m pid = restore_failed (m\<lparr>recoveryInProgress := True\<rparr>) e"
  using assms by (simp add: restoreFromPoint_def Let_def loaded_state_flag)

lemma restoreFromPoint_invalid:
  assumes "loaded_state cd m pid = Inr st"
    and "enableStateValidation (config m)" and "\<not> validateState cd st"
  shows "restoreFromPoint cd m pid =
     restore_failed (m\<lparr>recoveryInProgress := True\<rparr>) ''Invalid state data''"
  using assms by (simp add: restoreFromPoint_def Let_def loaded_state_flag)

lemma restoreFromPoint_no_callback:
  assumes "loaded_state cd m pid = Inr st"
    and "enableStateValidation (config m) \<longrightarrow> validateState cd st"
    and "stateRestoreCallback m = None"
  shows "restoreFromPoint cd m pid =
     restore_failed (m\<lparr>recoveryInProgress := True\<rparr>) ''bad_function_call''"
  using assms by (auto simp: restoreFromPoint_def Let_def loaded_state_flag)

lemma restoreFromPoint_callback:
  assumes "loaded_state cd m pid = Inr st"
    and "enableStateValidation (config m) \<longrightarrow> validateState cd st"
    and "stateRestoreCallback m = Some f"
  shows "restoreFromPoint cd m pid =
     (case f st of
        Inl e \<Rightarrow> restore_failed
                  (m\<lparr>recoveryInProgress := True, restoredStates := restoredStates m @ [st]\<rparr>) e
      | Inr False \<Rightarrow> restore_failed
                  (m\<lparr>recoveryInProgress := True, restoredStates := restoredStates m @ [st]\<rparr>)
                  ''Failed to restore state''
      | Inr True \<Rightarrow>
          (True, m\<lparr>recoveryInProgress := True, restoredStates := restoredStates m @ [st],
                   successfulRecoveries := successfulRecoveries m + 1,
                   recoveryInProgress := False\<rparr>))"
  using assms by (auto simp: restoreFromPoint_def Let_def loaded_state_flag split: sum.splits bool.splits)

lemma restoreFromPoint_true_iff:
  "fst (restoreFromPoint cd m pid) \<longleftrightarrow>
     (\<exists>st f. loaded_state cd m pid = Inr st \<and>
        (enableStateValidation (config m) \<longrightarrow> validateState cd st) \<and>
        stateRestoreCallback m = Some f \<and> f st = Inr True)"
proof (cases "loaded_state cd m pid")
  case (Inl e)
  then show ?thesis
    by (simp add: restoreFromPoint_load_error [OF Inl] restore_failed_result)
next
  case (Inr st)
  show ?thesis
  proof (cases "enableStateValidation (config m) \<and> \<not> validateState cd st")
    case True
    then show ?thesis
      using Inr restoreFromPoint_invalid [OF Inr] by (simp add: restore_failed_result)
  next
    case False
    then have v: "enableStateValidation (config m) \<longrightarrow> validateState cd st" by simp
    show ?thesis
    proof (cases "stateRestoreCallback m")
      case None
      then show ?thesis
        using Inr restoreFromPoint_no_callback [OF Inr v None] by (simp add: restore_failed_result)
    next
      case (Some f)
      show ?thesis
        using Inr v Some restoreFromPoint_callback [OF Inr v Some]
        by (cases "f st") (auto simp: restore_failed_result split: bool.splits)
    qed
  qed
qed

lemma restoreFromPoint_false_reports:
  assumes "\<not> fst (restoreFromPoint cd m pid)" and "errorCallback m"
  shows "\<exists>e. errorsReported (snd (restoreFromPoint cd m pid)) = errorsReported m @ [e]"
proof (cases "loaded_state cd m pid")
  case (Inl e)
  then show ?thesis
    using assms(2) by (simp add: restoreFromPoint_load_error [OF Inl] restore_failed_result)
next
  case (Inr st)
  show ?thesis
  proof (cases "enableStateValidation (config m) \<and> \<not> validateState cd st")
    case True
    then show ?thesis
      using assms(2) restoreFromPoint_invalid [OF Inr] by (simp add: restore_failed_result)
  next
    case False
    then have v: "enableStateValidation (config m) \<longrightarrow> validateState cd st" by simp
    show ?thesis
    proof (cases "stateRestoreCallback m")
      case None
      then show ?thesis
        using assms(2) restoreFromPoint_no_callback [OF Inr v None]
        by (simp add: restore_failed_result)
    next
      case (Some f)
      show ?thesis
        using assms restoreFromPoint_callback [OF Inr v Some]
        by (cases "f st") (auto simp: restore_failed_result split: bool.splits)
    qed
  qed
qed

text \<open>
  Claim C6, amended: with state validation enabled, \<open>restoreFromPoint\<close> returns false
  whenever the validator rejects the state bytes obtained by loading and decompressing;
  whenever it returns false and an error callback is installed, the callback is fired once;
  and it returns true only if the record loads, decompression throws nothing, the validator
  accepts the state when validation is enabled, and the state-restore callback, called on
  that state, returns true. In that case no error is reported.
\<close>

theorem restoreFromPoint_outcome:
  "(enableStateValidation (config m) \<and>
      (\<exists>st. loaded_state cd m pid = Inr st \<and> \<not> validateState cd st)
      \<longrightarrow> \<not> fst (restoreFromPoint cd m pid)) \<and>
   (\<not> fst (restoreFromPoint cd m pid) \<and> errorCallback m
      \<longrightarrow> (\<exists>e. errorsReported (snd (restoreFromPoint cd m pid)) = errorsReported m @ [e])) \<and>
   (fst (restoreFromPoint cd m pid)
      \<longrightarrow> (\<exists>point st f.
             loadCheckpoint (pointConfig (config m)) (storage m) pid = Some point \<and>
             (if enableCompression (pointConfig (config m))
              then \<exists>ok. decompressState cd (state point) = Inr (ok, st)
              else st = state point) \<and>
             (enableStateValidation (config m) \<longrightarrow> validateState cd st) \<and>
             stateRestoreCallback m = Some f \<and> f st = Inr True \<and>
             restoredStates (snd (restoreFromPoint cd m pid)) = restoredStates m @ [st] \<and>
             errorsReported (snd (restoreFromPoint cd m pid)) = errorsReported m))"
proof (intro conjI impI)
  assume "enableStateValidation (config m) \<and>
      (\<exists>st. loaded_state cd m pid = Inr st \<and> \<not> validateState cd st)"
  then show "\<not> fst (restoreFromPoint cd m pid)"
    unfolding restoreFromPoint_true_iff by auto
next
  assume "\<not> fst (restoreFromPoint cd m pid) \<and> errorCallback m"
  then show "\<exists>e. errorsReported (snd (restoreFromPoint cd m pid)) = errorsReported m @ [e]"
    using restoreFromPoint_false_reports by blast
next
  assume t: "fst (restoreFromPoint cd m pid)"
  then obtain st f where l: "loaded_state cd m pid = Inr st"
    and v: "enableStateValidation (config m) \<longrightarrow> validateState cd st"
    and f: "stateRestoreCallback m = Some f" "f st = Inr True"
    unfolding restoreFromPoint_true_iff by auto
  from l obtain point where p: "loadCheckpoint (pointConfig (config m)) (storage m) pid = Some point"
    and d: "if enableCompression (pointConfig (config m))
            then \<exists>ok. decompressState cd (state point) = Inr (ok, st)
            else st = state point"
    by (auto simp: loaded_state_def split: option.splits if_splits sum.splits)
  have r: "restoredStates (snd (restoreFromPoint cd m pid)) = restoredStates m @ [st]"
    "errorsReported (snd (restoreFromPoint cd m pid)) = errorsReported m"
    using f(2) by (simp_all add: restoreFromPoint_callback [OF l v f(1)])
  from p d v f r show "\<exists>point st f.
             loadCheckpoint (pointConfig (config m)) (storage m) pid = Some point \<and>
             (if enableCompression (pointConfig (config m))
              then \<exists>ok. decompressState cd (state point) = Inr (ok, st)
              else st = state point) \<and>
             (enableStateValidation (config m) \<longrightarrow> validateState cd st) \<and>
             stateRestoreCallback m = Some f \<and> f st = Inr True \<and>
             restoredStates (snd (restoreFromPoint cd m pid)) = restoredStates m @ [st] \<and>
             errorsReported (snd (restoreFromPoint cd m pid)) = errorsReported m"
    by blast
qed

theorem restoreFromPoint_outcome_witness:
  "enableStateValidation (config (sample_manager True)) \<and>
   loaded_state sample_codec (sample_manager True) ''p1'' = Inr [] \<and>
   \<not> validateState sample_codec [] \<and>
   errorCallback (sample_manager True) \<and>
   \<not> fst (restoreFromPoint sample_codec (sample_manager True) ''p1'') \<and>
   length (errorsReported (snd (restoreFromPoint sample_codec (sample_manager True) ''p1''))) = 1 \<and>
   fst (restoreFromPoint sample_codec (sample_manager False) ''p1'')"
proof -
  have a: "enableStateValidation (config (sample_manager True))"
    "errorCallback (sample_manager True)"
    "errorsReported (sample_manager True) = []"
    by (simp_all add: sample_manager_def)
  have b: "loaded_state sample_codec (sample_manager True) ''p1'' = Inr []"
    by (simp add: loaded_state_def loadCheckpoint_def sample_manager_def path_append_def
        fromJson_def RecoveryPoint_default_def)
  have c: "\<not> validateState sample_codec []" by (simp add: validateState_def)
  note o = restoreFromPoint_outcome [of "sample_manager True" sample_codec "''p1''"]
  from o a b c have d: "\<not> fst (restoreFromPoint sample_codec (sample_manager True) ''p1'')"
    by blast
  with o a have "\<exists>e. errorsReported (snd (restoreFromPoint sample_codec (sample_manager True) ''p1'')) = [e]"
    by auto
  then have e: "length (errorsReported (snd (restoreFromPoint sample_codec (sample_manager True) ''p1''))) = 1"
    by auto
  have f: "fst (restoreFromPoint sample_codec (sample_manager False) ''p1'')"
    by (simp add: restoreFromPoint_def loaded_state_def loadCheckpoint_def sample_manager_def
        path_append_def fromJson_def RecoveryPoint_default_def)
  from a b c d e f show ?thesis by simp
qed


lemma generatePointId_fields:
  "config (snd (generatePointId m)) = config m"
  "storage (snd (generatePointId m)) = storage m"
  "captureCalls (snd (generatePointId m)) = captureCalls m"
  "errorsReported (snd (generatePointId m)) = errorsReported m"
  "errorCallback (snd (generatePointId m)) = errorCallback m"
  by (simp_all add: generatePointId_def)

lemma assemble_point_without_validation:
  assumes "\<not> enableStateValidation (config m)"
  shows "captureCalls (fst (assemble_point cd m now)) = captureCalls m"
    and "storage (fst (assemble_point cd m now)) = storage m"
    and "config (fst (assemble_point cd m now)) = config m"
    and "errorsReported (fst (assemble_point cd m now)) = errorsReported m"
    and "\<not> enableCompression (pointConfig (config m)) \<Longrightarrow>
           snd (assemble_point cd m now) =
             Inr (RecoveryPoint_default\<lparr>point_id := fst (generatePointId m), timestamp := now,
                                        point_size := 0\<rparr>)"
    and "enableCompression (pointConfig (config m)) \<Longrightarrow> compressState cd [] = Inr (ok, st) \<Longrightarrow>
           snd (assemble_point cd m now) =
             Inr (RecoveryPoint_default\<lparr>point_id := fst (generatePointId m), timestamp := now,
                                        state := st, point_size := length st\<rparr>)"
  using assms
  by (auto simp: assemble_point_def Let_def case_prod_beta generatePointId_fields
      RecoveryPoint_default_def split: sum.splits)

text \<open>
  Claim C10. With state validation disabled, \<open>createRecoveryPoint\<close> never calls the
  state-capture callback. Where the point can be saved (the file can be written, and
  \<open>compressState\<close>, if enabled, throws nothing on the empty buffer), the call returns the
  generated id, which is not empty, and reports no error; the point handed to
  \<open>saveCheckpoint\<close> has an empty checksum and, without compression, empty state bytes
  and size 0; the file holds that point's JSON object, and loading it back gives a point
  with empty state bytes and an empty checksum.
\<close>

theorem createRecoveryPoint_without_validation:
  assumes nv: "\<not> enableStateValidation (config m)"
    and cp: "enableCompression (pointConfig (config m)) \<longrightarrow>
               (\<exists>ok st. compressState cd [] = Inr (ok, st))"
    and wr: "writable (storage m)
               (path_append (storagePath (pointConfig (config m)))
                  (fst (generatePointId m) @ ''.json''))"
  shows "captureCalls (snd (createRecoveryPoint cd m now)) = captureCalls m \<and>
         fst (createRecoveryPoint cd m now) = fst (generatePointId m) \<and>
         fst (createRecoveryPoint cd m now) \<noteq> [] \<and>
         errorsReported (snd (createRecoveryPoint cd m now)) = errorsReported m \<and>
         (\<exists>point. snd (assemble_point cd m now) = Inr point \<and> checksum point = [] \<and>
            isConsistent point = None \<and>
            (\<not> enableCompression (pointConfig (config m)) \<longrightarrow>
               state point = [] \<and> point_size point = 0) \<and>
            files (storage (snd (createRecoveryPoint cd m now)))
              (path_append (storagePath (pointConfig (config m)))
                 (fst (generatePointId m) @ ''.json'')) = Some (PointFile (toJson point))) \<and>
         (\<exists>loaded. loadCheckpoint (pointConfig (config m))
              (storage (snd (createRecoveryPoint cd m now))) (fst (createRecoveryPoint cd m now))
              = Some loaded \<and> state loaded = [] \<and> checksum loaded = [])"
proof -
  define pid where "pid = fst (generatePointId m)"
  define path where "path = path_append (storagePath (pointConfig (config m))) (pid @ ''.json'')"
  note a = assemble_point_without_validation [OF nv, where cd = cd and now = now]
  obtain point where p: "snd (assemble_point cd m now) = Inr point"
    and pf: "point_id point = pid" "checksum point = []" "isConsistent point = None"
    and ps: "\<not> enableCompression (pointConfig (config m)) \<longrightarrow> state point = [] \<and> point_size point = 0"
  proof (cases "enableCompression (pointConfig (config m))")
    case True
    with cp obtain ok st where "compressState cd [] = Inr (ok, st)" by auto
    from a(6) [OF True this] True that show ?thesis
      by (simp add: pid_def RecoveryPoint_default_def)
  next
    case False
    from a(5) [OF False] False that show ?thesis
      by (simp add: pid_def RecoveryPoint_default_def)
  qed
  define m2 where "m2 = fst (assemble_point cd m now)"
  have ap: "assemble_point cd m now = (m2, Inr point)"
    using p by (simp add: m2_def prod_eq_iff)
  have m2: "captureCalls m2 = captureCalls m" "storage m2 = storage m" "config m2 = config m"
    "errorsReported m2 = errorsReported m"
    using a(1-4) by (simp_all add: m2_def)
  have sv: "saveCheckpoint (pointConfig (config m2)) (storage m2) point =
      Some ((storage m)\<lparr>files := (files (storage m))(path := Some (PointFile (toJson point)))\<rparr>)"
    using wr by (simp add: saveCheckpoint_def m2 pf path_def pid_def Let_def)
  have cr: "createRecoveryPoint cd m now =
      (pid, m2\<lparr>storage := (storage m)\<lparr>files := (files (storage m))(path := Some (PointFile (toJson point)))\<rparr>\<rparr>)"
    by (simp add: createRecoveryPoint_def ap sv pf)
  have ne: "pid \<noteq> []" using generatePointId_length [of m] by (auto simp: pid_def)
  have ld: "loadCheckpoint (pointConfig (config m))
      (storage (snd (createRecoveryPoint cd m now))) (fst (createRecoveryPoint cd m now))
      = Some (fromJson (toJson point))"
    by (simp add: cr loadCheckpoint_def path_def Let_def)
  have fj: "state (fromJson (toJson point)) = []" "checksum (fromJson (toJson point)) = []"
    using pf by (simp_all add: fromJson_def toJson_def RecoveryPoint_default_def)
  have "\<exists>point. snd (assemble_point cd m now) = Inr point \<and> checksum point = [] \<and>
            isConsistent point = None \<and>
            (\<not> enableCompression (pointConfig (config m)) \<longrightarrow>
               state point = [] \<and> point_size point = 0) \<and>
            files (storage (snd (createRecoveryPoint cd m now))) path = Some (PointFile (toJson point))"
    using p pf ps by (auto simp: cr)
  moreover have "\<exists>loaded. loadCheckpoint (pointConfig (config m))
              (storage (snd (createRecoveryPoint cd m now))) (fst (createRecoveryPoint cd m now))
              = Some loaded \<and> state loaded = [] \<and> checksum loaded = []"
    using ld fj by blast
  ultimately show ?thesis
    using ne m2 unfolding path_def pid_def [symmetric] by (simp add: cr)
qed

theorem createRecoveryPoint_without_validation_witness:
  "\<not> enableStateValidation (config (sample_manager False)) \<and>
   \<not> enableCompression (pointConfig (config (sample_manager False))) \<and>
   writable (storage (sample_manager False))
     (path_append (storagePath (pointConfig (config (sample_manager False))))
        (fst (generatePointId (sample_manager False)) @ ''.json'')) \<and>
   fst (createRecoveryPoint sample_codec (sample_manager False) 5) = ''cdcdcdcdcdcdcdcd'' \<and>
   captureCalls (snd (createRecoveryPoint sample_codec (sample_manager False) 5)) = 0"
proof -
  have a: "\<not> enableStateValidation (config (sample_manager False))"
    and b: "\<not> enableCompression (pointConfig (config (sample_manager False)))"
    and c: "writable (storage (sample_manager False))
     (path_append (storagePath (pointConfig (config (sample_manager False))))
        (fst (generatePointId (sample_manager False)) @ ''.json''))"
    and d: "captureCalls (sample_manager False) = 0"
    by (simp_all add: sample_manager_def)
  have e: "fst (generatePointId (sample_manager False)) = ''cdcdcdcdcdcdcdcd''"
    by (simp add: generatePointId_def sample_manager_def hex2_def hex_digit_def upt_rec)
  from createRecoveryPoint_without_validation [OF a _ c, of sample_codec 5] a b c d e
  show ?thesis by simp
qed


end
